theory Spec2Isabelle
  imports
    Main
    "HOL-Library.Char_ord"
    "HOL-Library.List_Lexorder"
    "HOL-Library.Product_Lexorder"
    "HOL-Library.AList"
begin

section \<open>Data model (shared/models.py, shared/config.py)\<close>

text \<open>
  Python strings are modelled as \<^typ>\<open>string\<close>, one \<^typ>\<open>char\<close> per code point, so
  the texts covered are those of code points below 256 (Latin-1). On that range the
  character classes below are exactly Python's.

  A \<open>datetime\<close> is observed through two methods only: \<open>timestamp()\<close>, the score under
  which Redis files a message (kept here in microseconds, where the float of the
  source is exact), and \<open>isoformat()\<close>, the text that goes into the serialised message.
\<close>

datatype MessageType = USER | AI | SYSTEM

record datetime =
  epoch_us :: int
  isoformat :: string

record ChatMessage =
  message_id :: string
  chat_room_id :: string
  sender_id :: string
  sender_name :: string
  content :: string
  message_type :: MessageType
  timestamp :: datetime
  metadata :: string \<comment> \<open>the text \<open>json.dumps(message.metadata)\<close>\<close>

record ChatRoom =
  room_id :: string
  room_name :: string
  description :: "string option"
  created_at :: datetime
  ai_system_prompt :: "string option"
  ai_model :: "string option"
  created_by :: "string option"
  is_private :: bool
  assigned_users :: "string list"

type_synonym websocket = nat

record ConnectionInfo =
  ci_user_id :: string
  ci_username :: string
  ci_room_id :: string
  websocket_id :: string

definition DEFAULT_ROOM_ID :: string where
  "DEFAULT_ROOM_ID = ''general''"

definition AI_TRIGGERS :: "string list" where
  "AI_TRIGGERS =
     [''@ai'', ''@assistant'', ''@bot'', ''@styx'', ''hey ai'', ''hey styx'', ''ai help'', ''ai:'']"

datatype py_exception = AttributeError | RedisError

datatype http_error = HTTPException nat string

section \<open>AI trigger detection (backend/main.py, should_trigger_ai_response)\<close>

text \<open>
  Python's \<open>\s\<close> (which is also what \<open>str.strip\<close> removes), \<open>\w\<close> and \<open>str.lower\<close>
  on code points below 256. Whitespace includes the separators 0x1C to 0x1F, NEL (0x85)
  and the no-break space (0xA0); word characters are the underscore and what
  \<open>str.isalnum\<close> accepts, which includes the Latin-1 letters, the superscript digits and
  the three fractions; \<open>lower\<close> moves A to Z and the Latin-1 capitals 0xC0 to 0xDE
  (the multiplication sign 0xD7 apart) up by 32.
\<close>

definition code_point :: "char \<Rightarrow> nat" where
  "code_point c = of_char c"

definition is_space :: "char \<Rightarrow> bool" where
  "is_space c \<longleftrightarrow>
     (let n = code_point c in
      (9 \<le> n \<and> n \<le> 13) \<or> (28 \<le> n \<and> n \<le> 32) \<or> n = 133 \<or> n = 160)"

definition is_word :: "char \<Rightarrow> bool" where
  "is_word c \<longleftrightarrow>
     (let n = code_point c in
      (48 \<le> n \<and> n \<le> 57) \<or> (65 \<le> n \<and> n \<le> 90) \<or> n = 95 \<or> (97 \<le> n \<and> n \<le> 122)
      \<or> n = 170 \<or> n = 178 \<or> n = 179 \<or> n = 181 \<or> n = 185 \<or> n = 186
      \<or> (188 \<le> n \<and> n \<le> 190) \<or> (192 \<le> n \<and> n \<le> 214) \<or> (216 \<le> n \<and> n \<le> 246)
      \<or> 248 \<le> n)"

definition lower_char :: "char \<Rightarrow> char" where
  "lower_char c =
     (let n = code_point c in
      if (65 \<le> n \<and> n \<le> 90) \<or> (192 \<le> n \<and> n \<le> 222 \<and> n \<noteq> 215)
      then char_of (n + 32) else c)"

definition lower :: "string \<Rightarrow> string" where
  "lower s = map lower_char s"

text \<open>
  The two patterns are built from four pieces: \<open>$\<close> (end of the string, or just before
  a final newline), the lookahead \<open>(?=\s|[,.!?;:]|$)\<close>, the escaped trigger (a literal)
  and \<open>\b\<close>. \<open>mention_match_at t s i\<close> says that \<open>(^|\s)t(?=...)\<close> matches \<open>s\<close>
  from position \<open>i\<close>, \<open>phrase_match_at\<close> the same for \<open>\bt(?=...)\<close>, and
  \<open>re.search\<close> tries every position.
\<close>

definition at_dollar :: "string \<Rightarrow> nat \<Rightarrow> bool" where
  "at_dollar s k \<longleftrightarrow> k = length s \<or> (Suc k = length s \<and> s ! k = CHR 0x0A)"

definition lookahead :: "string \<Rightarrow> nat \<Rightarrow> bool" where
  "lookahead s k \<longleftrightarrow>
     (k < length s \<and> (is_space (s ! k) \<or> s ! k \<in> set '',.!?;:'')) \<or> at_dollar s k"

definition literal_at :: "string \<Rightarrow> string \<Rightarrow> nat \<Rightarrow> bool" where
  "literal_at t s k \<longleftrightarrow> take (length t) (drop k s) = t"

definition word_boundary :: "string \<Rightarrow> nat \<Rightarrow> bool" where
  "word_boundary s k \<longleftrightarrow>
     (0 < k \<and> is_word (s ! (k - 1))) \<noteq> (k < length s \<and> is_word (s ! k))"

definition mention_match_at :: "string \<Rightarrow> string \<Rightarrow> nat \<Rightarrow> bool" where
  "mention_match_at t s i \<longleftrightarrow>
     (i = 0 \<and> literal_at t s 0 \<and> lookahead s (length t))
     \<or> (i < length s \<and> is_space (s ! i) \<and> literal_at t s (Suc i)
         \<and> lookahead s (Suc i + length t))"

definition phrase_match_at :: "string \<Rightarrow> string \<Rightarrow> nat \<Rightarrow> bool" where
  "phrase_match_at t s i \<longleftrightarrow>
     word_boundary s i \<and> literal_at t s i \<and> lookahead s (i + length t)"

definition re_search :: "(nat \<Rightarrow> bool) \<Rightarrow> string \<Rightarrow> bool" where
  "re_search match_at s = list_ex match_at [0..<Suc (length s)]"

fun trigger_loop :: "string \<Rightarrow> string list \<Rightarrow> bool" where
  "trigger_loop content_lower [] = False"
| "trigger_loop content_lower (trigger # rest) =
     (let trigger_lower = lower trigger in
      if take 1 trigger_lower = ''@'' then
        (if re_search (mention_match_at trigger_lower content_lower) content_lower then True
         else trigger_loop content_lower rest)
      else
        (if re_search (phrase_match_at trigger_lower content_lower) content_lower then True
         else trigger_loop content_lower rest))"

definition should_trigger_ai_response :: "string \<Rightarrow> bool" where
  "should_trigger_ai_response text = trigger_loop (lower text) AI_TRIGGERS"

text \<open>
  The matching rule in the words of the specification: an occurrence of the trigger that
  starts the string or follows whitespace (mention style) or a non-word character (phrase
  style), and is followed by whitespace, one of the six punctuation marks or the end.
  A character is adjacent to an occurrence if it comes right before or right after it.
\<close>

definition right_delimited :: "string \<Rightarrow> nat \<Rightarrow> bool" where
  "right_delimited s k \<longleftrightarrow>
     k = length s \<or> is_space (s ! k) \<or> s ! k \<in> set '',.!?;:''"

definition delimited_occurrence :: "string \<Rightarrow> string \<Rightarrow> nat \<Rightarrow> bool" where
  "delimited_occurrence t s j \<longleftrightarrow>
     j + length t \<le> length s \<and> take (length t) (drop j s) = t
     \<and> (if take 1 t = ''@'' then j = 0 \<or> is_space (s ! (j - 1))
        else j = 0 \<or> \<not> is_word (s ! (j - 1)))
     \<and> right_delimited s (j + length t)"

definition token_char :: "char \<Rightarrow> bool" where
  "token_char c \<longleftrightarrow> \<not> is_space c \<and> c \<notin> set '',.!?;:''"

definition adjacent :: "(char \<Rightarrow> bool) \<Rightarrow> string \<Rightarrow> string \<Rightarrow> nat \<Rightarrow> bool" where
  "adjacent cls t s j \<longleftrightarrow>
     (0 < j \<and> cls (s ! (j - 1))) \<or> (j + length t < length s \<and> cls (s ! (j + length t)))"

section \<open>Room access policy (backend/chat_manager.py, can_user_access_room)\<close>

definition can_user_access_room :: "ChatRoom \<Rightarrow> string \<Rightarrow> string \<Rightarrow> bool \<Rightarrow> bool" where
  "can_user_access_room room user_id user_role is_kid =
     (if user_role = ''admin'' then True
      else if is_kid then
        (if room_id room = ''general'' then True
         else user_id \<in> set (assigned_users room))
      else if \<not> is_private room then True
      else user_id \<in> set (assigned_users room))"

text \<open>The three rules of the specification, in its words, to compare with the code.\<close>

definition can_access_spec :: "ChatRoom \<Rightarrow> string \<Rightarrow> string \<Rightarrow> bool \<Rightarrow> bool" where
  "can_access_spec room user_id role is_restricted_account =
     (if role = ''admin'' then True
      else if is_restricted_account then
        (room_id room = DEFAULT_ROOM_ID \<or> user_id \<in> set (assigned_users room))
      else (\<not> is_private room \<or> user_id \<in> set (assigned_users room)))"

text \<open>Two sample rooms: a private one with user 7 assigned, and the default room.\<close>

definition den_room :: ChatRoom where
  "den_room =
     \<lparr>room_id = ''den'', room_name = ''Den'', description = None,
      created_at = \<lparr>epoch_us = 0, isoformat = ''1970-01-01T00:00:00''\<rparr>,
      ai_system_prompt = None, ai_model = None, created_by = None,
      is_private = True, assigned_users = [''7'']\<rparr>"

definition general_room :: ChatRoom where
  "general_room =
     \<lparr>room_id = ''general'', room_name = ''General Chat'', description = None,
      created_at = \<lparr>epoch_us = 0, isoformat = ''1970-01-01T00:00:00''\<rparr>,
      ai_system_prompt = None, ai_model = None, created_by = None,
      is_private = False, assigned_users = []\<rparr>"

section \<open>Message store on Redis (backend/chat_manager.py)\<close>

text \<open>
  The Redis server holds, per room, the sorted set \<open>chat:messages:{room_id}\<close>, per message
  the hash \<open>chat:message:{message_id}\<close> and per room the hash \<open>chat:room:{room_id}\<close>; the
  three key families cannot collide, so they are three maps. A sorted set is kept as the
  list of its (score, member) entries in Redis's order: ascending score, members of equal
  score in the byte order of the member. The member is the text
  \<open>json.dumps(message_data)\<close>; an entry carries the message it decodes to, and its
  bytes are \<open>json_dumps_message\<close>.
\<close>

definition hex_digit :: "nat \<Rightarrow> char" where
  "hex_digit n = ''0123456789abcdef'' ! n"

definition json_escape :: "char \<Rightarrow> string" where
  "json_escape c =
     (if c = CHR 0x22 then [CHR 0x5C, CHR 0x22]
      else if c = CHR 0x5C then [CHR 0x5C, CHR 0x5C]
      else if c = CHR 0x0A then [CHR 0x5C, CHR ''n'']
      else if c = CHR 0x0D then [CHR 0x5C, CHR ''r'']
      else if c = CHR 0x09 then [CHR 0x5C, CHR ''t'']
      else if c = CHR 0x08 then [CHR 0x5C, CHR ''b'']
      else if c = CHR 0x0C then [CHR 0x5C, CHR ''f'']
      else (let n = code_point c in
        if n < 32 \<or> 127 \<le> n
        then [CHR 0x5C, CHR ''u'', CHR ''0'', CHR ''0'', hex_digit (n div 16), hex_digit (n mod 16)]
        else [c]))"

definition json_string :: "string \<Rightarrow> string" where
  "json_string s = [CHR 0x22] @ concat (map json_escape s) @ [CHR 0x22]"

definition json_field :: "string \<Rightarrow> string \<Rightarrow> string" where
  "json_field k v = json_string k @ '': '' @ json_string v"

definition message_type_value :: "MessageType \<Rightarrow> string" where
  "message_type_value t = (case t of USER \<Rightarrow> ''user'' | AI \<Rightarrow> ''ai'' | SYSTEM \<Rightarrow> ''system'')"

definition json_dumps_message :: "ChatMessage \<Rightarrow> string" where
  "json_dumps_message m =
     ''{'' @ json_field ''message_id'' (message_id m)
     @ '', '' @ json_field ''chat_room_id'' (chat_room_id m)
     @ '', '' @ json_field ''sender_id'' (sender_id m)
     @ '', '' @ json_field ''sender_name'' (sender_name m)
     @ '', '' @ json_field ''content'' (content m)
     @ '', '' @ json_field ''message_type'' (message_type_value (message_type m))
     @ '', '' @ json_field ''timestamp'' (isoformat (timestamp m))
     @ '', '' @ json_field ''metadata'' (metadata m)
     @ ''}''"

type_synonym zset = "(int \<times> ChatMessage) list"

definition zkey :: "int \<times> ChatMessage \<Rightarrow> int \<times> string" where
  "zkey e = (fst e, json_dumps_message (snd e))"

record RedisStore =
  zsets :: "string \<Rightarrow> zset"
  msg_hashes :: "string \<rightharpoonup> ChatMessage"
  room_hashes :: "string \<rightharpoonup> ChatRoom"

text \<open>ZADD: a member already present is re-scored, so it is taken out first.\<close>

definition zadd :: "zset \<Rightarrow> ChatMessage \<Rightarrow> int \<Rightarrow> zset" where
  "zadd zs m score =
     insort_key zkey (score, m)
       (filter (\<lambda>e. json_dumps_message (snd e) \<noteq> json_dumps_message m) zs)"

text \<open>
  The inclusive rank range that Redis derives from \<open>start\<close> and \<open>stop\<close> on a set of
  \<open>n\<close> entries: negative indices count from the end, the range is clipped, and an
  empty range is \<open>None\<close>.
\<close>

definition rank_range :: "nat \<Rightarrow> int \<Rightarrow> int \<Rightarrow> (nat \<times> nat) option" where
  "rank_range n start stop =
     (let s0 = (if start < 0 then int n + start else start);
          e0 = (if stop < 0 then int n + stop else stop);
          s1 = (if s0 < 0 then 0 else s0)
      in if e0 < s1 \<or> int n \<le> s1 then None
         else Some (nat s1, nat (if int n \<le> e0 then int n - 1 else e0)))"

definition zremrangebyrank :: "zset \<Rightarrow> int \<Rightarrow> int \<Rightarrow> zset" where
  "zremrangebyrank zs start stop =
     (case rank_range (length zs) start stop of
        None \<Rightarrow> zs
      | Some (a, b) \<Rightarrow> take a zs @ drop (Suc b) zs)"

definition zrevrange :: "zset \<Rightarrow> int \<Rightarrow> int \<Rightarrow> ChatMessage list" where
  "zrevrange zs start stop =
     (case rank_range (length zs) start stop of
        None \<Rightarrow> []
      | Some (a, b) \<Rightarrow> map snd (take (Suc b - a) (drop a (rev zs))))"

text \<open>
  The methods of \<open>ChatManager\<close>. \<open>up\<close> says whether the Redis calls of this invocation
  succeed; when they raise, \<open>store_message\<close>, \<open>get_recent_messages\<close> and
  \<open>get_message\<close> catch the exception and return their default, and \<open>get_room\<close>,
  which has no handler, lets it through. \<open>cap\<close> is \<open>Config.MAX_CHAT_HISTORY\<close>.
\<close>

definition store_message :: "bool \<Rightarrow> int \<Rightarrow> RedisStore \<Rightarrow> ChatMessage \<Rightarrow> bool \<times> RedisStore" where
  "store_message up cap store message =
     (if \<not> up then (False, store)
      else
        let messages_key = chat_room_id message;
            timestamp_score = epoch_us (timestamp message);
            zs1 = zadd (zsets store messages_key) message timestamp_score;
            zs2 = zremrangebyrank zs1 0 (- (cap + 1))
        in (True, store\<lparr>zsets := (zsets store)(messages_key := zs2),
                         msg_hashes := (msg_hashes store)(message_id message \<mapsto> message)\<rparr>))"

definition get_recent_messages :: "bool \<Rightarrow> RedisStore \<Rightarrow> string \<Rightarrow> int \<Rightarrow> ChatMessage list" where
  "get_recent_messages up store room limit =
     (if \<not> up then []
      else rev (zrevrange (zsets store room) 0 (limit - 1)))"

definition get_message :: "bool \<Rightarrow> RedisStore \<Rightarrow> string \<Rightarrow> ChatMessage option" where
  "get_message up store mid = (if \<not> up then None else msg_hashes store mid)"

definition get_room :: "bool \<Rightarrow> RedisStore \<Rightarrow> string \<Rightarrow> py_exception + ChatRoom option" where
  "get_room up store rid = (if \<not> up then Inl RedisError else Inr (room_hashes store rid))"

text \<open>Storing a sequence of messages, one call of \<open>store_message\<close> each.\<close>

definition store_all :: "int \<Rightarrow> RedisStore \<Rightarrow> ChatMessage list \<Rightarrow> RedisStore" where
  "store_all cap store ms = fold (\<lambda>m s. snd (store_message True cap s m)) ms store"

definition empty_store :: RedisStore where
  "empty_store = \<lparr>zsets = (\<lambda>_. []), msg_hashes = Map.empty, room_hashes = Map.empty\<rparr>"

text \<open>
  Observations used in the theorems: the last \<open>n\<close> elements of a list, the entry under
  which a message is filed, what it means for a collection to hold the \<open>c\<close> newest of the
  messages \<open>ms\<close>, and the rule for entries of equal score; then sample messages and stores.
\<close>

definition lastn :: "nat \<Rightarrow> 'a list \<Rightarrow> 'a list" where
  "lastn n xs = drop (length xs - n) xs"

definition entry :: "ChatMessage \<Rightarrow> int \<times> ChatMessage" where
  "entry m = (epoch_us (timestamp m), m)"

definition newest_of :: "nat \<Rightarrow> ChatMessage list \<Rightarrow> zset \<Rightarrow> bool" where
  "newest_of c ms zs \<longleftrightarrow>
     sorted (map zkey zs) \<and> length zs = min c (length ms) \<and> set zs \<subseteq> entry ` set ms
     \<and> (\<forall>m\<in>set ms. entry m \<notin> set zs \<longrightarrow> (\<forall>e\<in>set zs. zkey (entry m) < zkey e))"

definition equal_scores_in_byte_order :: "zset \<Rightarrow> bool" where
  "equal_scores_in_byte_order zs \<longleftrightarrow>
     (\<forall>i j. i < j \<and> j < length zs \<and> fst (zs ! i) = fst (zs ! j)
        \<longrightarrow> json_dumps_message (snd (zs ! i)) \<le> json_dumps_message (snd (zs ! j)))"

definition msg_old :: ChatMessage where
  "msg_old = \<lparr>message_id = ''m-old'', chat_room_id = ''general'', sender_id = ''1'',
      sender_name = ''alice'', content = ''first'', message_type = USER,
      timestamp = \<lparr>epoch_us = 1700000000000000, isoformat = ''2023-11-14T22:13:20''\<rparr>,
      metadata = ''{}''\<rparr>"

definition msg_new :: ChatMessage where
  "msg_new = \<lparr>message_id = ''m-new'', chat_room_id = ''general'', sender_id = ''1'',
      sender_name = ''alice'', content = ''second'', message_type = USER,
      timestamp = \<lparr>epoch_us = 1700000001000000, isoformat = ''2023-11-14T22:13:21''\<rparr>,
      metadata = ''{}''\<rparr>"

definition tie_first :: ChatMessage where
  "tie_first = \<lparr>message_id = ''b'', chat_room_id = ''general'', sender_id = ''1'',
      sender_name = ''alice'', content = ''stored first'', message_type = USER,
      timestamp = \<lparr>epoch_us = 1700000000000000, isoformat = ''2023-11-14T22:13:20''\<rparr>,
      metadata = ''{}''\<rparr>"

definition tie_second :: ChatMessage where
  "tie_second = \<lparr>message_id = ''a'', chat_room_id = ''general'', sender_id = ''2'',
      sender_name = ''bob'', content = ''stored second'', message_type = USER,
      timestamp = \<lparr>epoch_us = 1700000000000000, isoformat = ''2023-11-14T22:13:20''\<rparr>,
      metadata = ''{}''\<rparr>"

definition two_stored :: RedisStore where
  "two_stored = store_all 1 empty_store [msg_old, msg_new]"

definition two_kept :: RedisStore where
  "two_kept = store_all 100 empty_store [msg_old, msg_new]"

definition tie_stored :: RedisStore where
  "tie_stored = store_all 100 empty_store [tie_first, tie_second]"

section \<open>Connection registry and broadcaster (backend/main.py, ConnectionManager)\<close>

text \<open>
  The three dictionaries are association lists in insertion order, and a room's member set
  is a list without repetition whose order stands for the iteration order of the Python
  set. What the manager does to the outside is recorded in two logs that the source does
  not have: \<open>sent\<close>, the frames that \<open>send_text\<close> delivered, and \<open>broadcasts\<close>, the
  calls of \<open>broadcast_to_room\<close>. Events carry the fields the claims speak of; the
  wall-clock timestamp that some events carry is left out.
\<close>

datatype ws_event =
    USER_JOINED string string
  | USER_LEFT string string
  | USER_LIST_UPDATED "(string \<times> string) list"
  | CONNECTION_ESTABLISHED string string "(string \<times> string) list"
  | MESSAGE_HISTORY ChatMessage
  | MESSAGE_RECEIVED ChatMessage
  | AI_TYPING bool

record ConnectionManager =
  connections :: "(string \<times> websocket) list"
  user_info :: "(string \<times> ConnectionInfo) list"
  room_members :: "(string \<times> string list) list"
  sent :: "(string \<times> ws_event) list"
  broadcasts :: "(string \<times> ws_event) list"

definition get_active_users_info :: "ConnectionManager \<Rightarrow> string \<Rightarrow> (string \<times> string) list" where
  "get_active_users_info cm room =
     (let styx = (case map_of (room_members cm) room of
                    None \<Rightarrow> [] | Some members \<Rightarrow>
                      if members \<noteq> [] then [(''ai_styx'', ''Styx'')] else []);
          human_users = (case map_of (room_members cm) room of
                    None \<Rightarrow> [] | Some members \<Rightarrow>
                      sort_key (\<lambda>x. lower (snd x))
                        (concat (map (\<lambda>uid. case map_of (user_info cm) uid of
                                         None \<Rightarrow> [] | Some info \<Rightarrow> [(uid, ci_username info)])
                                  members)))
      in styx @ human_users)"

text \<open>The state changes of \<open>connect\<close> and \<open>disconnect\<close>, one function each.\<close>

definition pop_user :: "ConnectionManager \<Rightarrow> string \<Rightarrow> ConnectionManager" where
  "pop_user cm uid =
     cm\<lparr>connections := AList.delete uid (connections cm),
        user_info := AList.delete uid (user_info cm)\<rparr>"

definition discard_member :: "ConnectionManager \<Rightarrow> string \<Rightarrow> string \<Rightarrow> ConnectionManager" where
  "discard_member cm room uid =
     (case map_of (room_members cm) room of
        None \<Rightarrow> cm
      | Some members \<Rightarrow>
          (let members' = removeAll uid members in
           if members' = [] then cm\<lparr>room_members := AList.delete room (room_members cm)\<rparr>
           else cm\<lparr>room_members := AList.update room members' (room_members cm)\<rparr>))"

definition add_member :: "ConnectionManager \<Rightarrow> string \<Rightarrow> string \<Rightarrow> ConnectionManager" where
  "add_member cm room uid =
     (let members = (case map_of (room_members cm) room of None \<Rightarrow> [] | Some ms \<Rightarrow> ms) in
      cm\<lparr>room_members :=
           AList.update room (if uid \<in> set members then members else members @ [uid])
             (room_members cm)\<rparr>)"

definition log_sent :: "ConnectionManager \<Rightarrow> string \<Rightarrow> ws_event \<Rightarrow> ConnectionManager" where
  "log_sent cm uid ev = cm\<lparr>sent := sent cm @ [(uid, ev)]\<rparr>"

definition log_broadcast :: "ConnectionManager \<Rightarrow> string \<Rightarrow> ws_event \<Rightarrow> ConnectionManager" where
  "log_broadcast cm room ev = cm\<lparr>broadcasts := broadcasts cm @ [(room, ev)]\<rparr>"

definition excluded :: "string option \<Rightarrow> string \<Rightarrow> bool" where
  "excluded exclude_user uid \<longleftrightarrow>
     (case exclude_user of None \<Rightarrow> False | Some e \<Rightarrow> e \<noteq> [] \<and> uid = e)"

text \<open>
  \<open>send_to_user\<close> catches a failed \<open>send_text\<close> and disconnects the recipient, and
  \<open>disconnect\<close> broadcasts, so the three methods call each other. \<open>dead ws\<close> says
  that sending on socket \<open>ws\<close> raises. The first argument bounds the nesting depth of
  \<open>disconnect\<close> calls; \<open>None\<close> means the bound was too small (lemma \<open>fuel_enough\<close>:
  more than the number of registered users is always enough).
\<close>

function (sequential) disconnect :: "nat \<Rightarrow> (websocket \<Rightarrow> bool) \<Rightarrow> ConnectionManager \<Rightarrow> string \<Rightarrow> ConnectionManager option"
  and send_to_user :: "nat \<Rightarrow> (websocket \<Rightarrow> bool) \<Rightarrow> ConnectionManager \<Rightarrow> string \<Rightarrow> ws_event \<Rightarrow> ConnectionManager option"
  and broadcast_loop :: "nat \<Rightarrow> (websocket \<Rightarrow> bool) \<Rightarrow> ConnectionManager \<Rightarrow> string list \<Rightarrow> ws_event \<Rightarrow> string option \<Rightarrow> ConnectionManager option"
  and broadcast_to_room :: "nat \<Rightarrow> (websocket \<Rightarrow> bool) \<Rightarrow> ConnectionManager \<Rightarrow> string \<Rightarrow> ws_event \<Rightarrow> string option \<Rightarrow> ConnectionManager option"
where
  "disconnect 0 dead cm uid = None"
| "disconnect (Suc n) dead cm uid =
     (case map_of (user_info cm) uid of
        None \<Rightarrow> Some cm
      | Some info \<Rightarrow>
          (let room = ci_room_id info;
               username = ci_username info;
               cm1 = discard_member (pop_user cm uid) room uid
           in case broadcast_to_room n dead cm1 room (USER_LEFT uid username) None of
                None \<Rightarrow> None
              | Some cm2 \<Rightarrow>
                  broadcast_to_room n dead cm2 room
                    (USER_LIST_UPDATED (get_active_users_info cm2 room)) None))"
| "send_to_user n dead cm uid ev =
     (case map_of (connections cm) uid of
        None \<Rightarrow> Some cm
      | Some ws \<Rightarrow> if dead ws then disconnect n dead cm uid else Some (log_sent cm uid ev))"
| "broadcast_loop n dead cm [] ev exclude_user = Some cm"
| "broadcast_loop n dead cm (uid # rest) ev exclude_user =
     (if excluded exclude_user uid then broadcast_loop n dead cm rest ev exclude_user
      else case send_to_user n dead cm uid ev of
             None \<Rightarrow> None
           | Some cm' \<Rightarrow> broadcast_loop n dead cm' rest ev exclude_user)"
| "broadcast_to_room n dead cm room ev exclude_user =
     (case map_of (room_members cm) room of
        None \<Rightarrow> Some (log_broadcast cm room ev)
      | Some members \<Rightarrow> broadcast_loop n dead (log_broadcast cm room ev) members ev exclude_user)"
  by pat_completeness auto
termination
  by (relation "measures
        [\<lambda>x. case x of Inl (Inl (n, _)) \<Rightarrow> n | Inl (Inr (n, _)) \<Rightarrow> n
                        | Inr (Inl (n, _)) \<Rightarrow> n | Inr (Inr (n, _)) \<Rightarrow> n,
         \<lambda>x. case x of Inl (Inl _) \<Rightarrow> 0 | Inl (Inr _) \<Rightarrow> 1
                        | Inr (Inl _) \<Rightarrow> 2 | Inr (Inr _) \<Rightarrow> 3,
         \<lambda>x. case x of Inr (Inl (_, _, _, us, _)) \<Rightarrow> length us | _ \<Rightarrow> 0]") auto

text \<open>
  \<open>connect\<close>: \<open>ws_id\<close> is the uuid drawn inside the method; \<open>websocket.accept()\<close> is
  taken to succeed. The history replay reads the store through \<open>get_recent_messages\<close>.
\<close>

fun send_history :: "nat \<Rightarrow> (websocket \<Rightarrow> bool) \<Rightarrow> ConnectionManager \<Rightarrow> string \<Rightarrow> ChatMessage list \<Rightarrow> ConnectionManager option" where
  "send_history n dead cm uid [] = Some cm"
| "send_history n dead cm uid (message # rest) =
     (case send_to_user n dead cm uid (MESSAGE_HISTORY message) of
        None \<Rightarrow> None
      | Some cm' \<Rightarrow> send_history n dead cm' uid rest)"

definition connect ::
  "nat \<Rightarrow> (websocket \<Rightarrow> bool) \<Rightarrow> bool \<Rightarrow> RedisStore \<Rightarrow> ConnectionManager \<Rightarrow> websocket \<Rightarrow> string \<Rightarrow> string \<Rightarrow> string \<Rightarrow> string
   \<Rightarrow> ConnectionManager option" where
  "connect n dead up store cm ws uid username room ws_id =
     (let cm1 = cm\<lparr>connections := AList.update uid ws (connections cm),
                    user_info := AList.update uid
                       \<lparr>ci_user_id = uid, ci_username = username, ci_room_id = room,
                        websocket_id = ws_id\<rparr> (user_info cm)\<rparr>;
          cm2 = add_member cm1 room uid
      in case broadcast_to_room n dead cm2 room (USER_JOINED uid username) (Some uid) of
           None \<Rightarrow> None
         | Some cm3 \<Rightarrow>
             (let active_users = get_active_users_info cm3 room in
              case send_to_user n dead cm3 uid (CONNECTION_ESTABLISHED uid room active_users) of
                None \<Rightarrow> None
              | Some cm4 \<Rightarrow>
                  (case send_history n dead cm4 uid (get_recent_messages up store room 50) of
                     None \<Rightarrow> None
                   | Some cm5 \<Rightarrow>
                       broadcast_to_room n dead cm5 room (USER_LIST_UPDATED active_users) None)))"

definition empty_manager :: ConnectionManager where
  "empty_manager = \<lparr>connections = [], user_info = [], room_members = [], sent = [], broadcasts = []\<rparr>"

text \<open>Observations used in the theorems, and sample states.\<close>

definition is_user_left :: "string \<Rightarrow> ws_event \<Rightarrow> bool" where
  "is_user_left uid ev \<longleftrightarrow> (case ev of USER_LEFT u _ \<Rightarrow> u = uid | _ \<Rightarrow> False)"

definition user_left_count :: "string \<Rightarrow> ConnectionManager \<Rightarrow> nat" where
  "user_left_count uid cm = length (filter (\<lambda>b. is_user_left uid (snd b)) (broadcasts cm))"

definition is_member :: "ConnectionManager \<Rightarrow> string \<Rightarrow> string \<Rightarrow> bool" where
  "is_member cm room uid \<longleftrightarrow>
     (case map_of (room_members cm) room of None \<Rightarrow> False | Some members \<Rightarrow> uid \<in> set members)"

definition no_dead :: "websocket \<Rightarrow> bool" where
  "no_dead ws = False"

definition alice_in_general :: ConnectionManager where
  "alice_in_general =
     \<lparr>connections = [(''1'', 7)],
      user_info = [(''1'', \<lparr>ci_user_id = ''1'', ci_username = ''alice'', ci_room_id = ''general'',
                            websocket_id = ''w7''\<rparr>)],
      room_members = [(''general'', [''1''])], sent = [], broadcasts = []\<rparr>"

definition reconnect_elsewhere :: "ConnectionManager option" where
  "reconnect_elsewhere =
     Option.bind
       (connect 2 no_dead True empty_store empty_manager 1 ''1'' ''alice'' ''den'' ''w1'')
       (\<lambda>cm. connect 2 no_dead True empty_store cm 2 ''1'' ''alice'' ''general'' ''w2'')"

definition reconnect_then_leave :: "ConnectionManager option" where
  "reconnect_then_leave = Option.bind reconnect_elsewhere (\<lambda>cm. disconnect 2 no_dead cm ''1'')"

definition gone :: "string \<Rightarrow> string \<Rightarrow> nat \<Rightarrow> ConnectionManager \<Rightarrow> bool" where
  "gone uid room k cm \<longleftrightarrow>
     map_of (user_info cm) uid = None \<and> map_of (connections cm) uid = None
     \<and> \<not> is_member cm room uid \<and> user_left_count uid cm = k"

section \<open>AI response handling (backend/ai_service.py, backend/main.py)\<close>

text \<open>
  The AI endpoint is outside the program: \<open>ai_post\<close> gives, for a request, what the HTTP
  call does. It answers with a status and, if the body has the expected shape, the
  content of the first choice; or the call times out; or it raises something else (which
  is also what a body of another shape leads to). \<open>generate_response\<close> catches every
  exception and returns a text in each case.
\<close>

datatype ai_outcome = HTTP_response nat "string option" | TimeoutException | OtherException

record ai_request =
  req_message :: string
  req_username :: string
  req_history :: "ChatMessage list"
  req_prompt :: "string option"
  req_model :: "string option"

definition strip :: "string \<Rightarrow> string" where
  "strip s = rev (dropWhile is_space (rev (dropWhile is_space s)))"

definition generate_response ::
  "(ai_request \<Rightarrow> ai_outcome) \<Rightarrow> string \<Rightarrow> string \<Rightarrow> ChatMessage list \<Rightarrow> string option \<Rightarrow> string option
   \<Rightarrow> string option" where
  "generate_response post user_message username chat_history room_prompt model_name =
     (case post \<lparr>req_message = user_message, req_username = username,
                 req_history = chat_history, req_prompt = room_prompt,
                 req_model = model_name\<rparr> of
        HTTP_response status body \<Rightarrow>
          if status = 200 then
            (case body of
               Some text \<Rightarrow> Some (strip text)
             | None \<Rightarrow> Some ''Sorry, I encountered an error while processing your message.'')
          else Some ''Sorry, I'm having trouble processing your request right now.''
      | TimeoutException \<Rightarrow> Some ''Sorry, I'm taking too long to respond. Please try again.''
      | OtherException \<Rightarrow> Some ''Sorry, I encountered an error while processing your message.'')"

text \<open>
  What surrounds one run of \<open>handle_ai_response\<close>: which sockets fail on send, whether
  Redis answers the room lookup, the history read and the write, the AI endpoint, the
  uuid and the clock reading taken for the AI message, and \<open>Config.MAX_CHAT_HISTORY\<close>.
  The only step of the handler that can raise is the room lookup (\<open>get_room\<close> has no
  handler of its own); the other collaborators catch their exceptions.
\<close>

record environment =
  socket_dead :: "websocket \<Rightarrow> bool"
  up_rooms :: bool
  up_history :: bool
  up_store :: bool
  ai_post :: "ai_request \<Rightarrow> ai_outcome"
  new_message_id :: string
  now :: datetime
  max_chat_history :: int

definition ai_message :: "environment \<Rightarrow> string \<Rightarrow> string \<Rightarrow> ChatMessage" where
  "ai_message env room ai_response =
     \<lparr>message_id = new_message_id env, chat_room_id = room, sender_id = ''ai_styx'',
      sender_name = ''Styx'', content = ai_response, message_type = AI,
      timestamp = now env, metadata = ''{}''\<rparr>"

definition truthy :: "string option \<Rightarrow> bool" where
  "truthy r \<longleftrightarrow> (case r of None \<Rightarrow> False | Some s \<Rightarrow> s \<noteq> [])"

definition handle_ai_response ::
  "nat \<Rightarrow> environment \<Rightarrow> ConnectionManager \<Rightarrow> RedisStore \<Rightarrow> string \<Rightarrow> string \<Rightarrow> string
   \<Rightarrow> (ConnectionManager \<times> RedisStore) option" where
  "handle_ai_response n env cm store room user_message username =
     (case broadcast_to_room n (socket_dead env) cm room (AI_TYPING True) None of
        None \<Rightarrow> None
      | Some cm1 \<Rightarrow>
          (case get_room (up_rooms env) store room of
             Inl e \<Rightarrow>
               map_option (\<lambda>cm'. (cm', store))
                 (broadcast_to_room n (socket_dead env) cm1 room (AI_TYPING False) None)
           | Inr found \<Rightarrow>
               (let room_prompt = (case found of None \<Rightarrow> None | Some r \<Rightarrow> ai_system_prompt r);
                    room_model = (case found of None \<Rightarrow> None | Some r \<Rightarrow> ai_model r);
                    recent = get_recent_messages (up_history env) store room 10;
                    chat_history =
                      (if recent \<noteq> [] \<and> content (last recent) = user_message
                          \<and> sender_name (last recent) = username
                       then butlast recent else recent);
                    ai_response = generate_response (ai_post env) user_message username
                                    chat_history room_prompt room_model
                in if truthy ai_response then
                     (let message = ai_message env room (the ai_response);
                          store' = snd (store_message (up_store env) (max_chat_history env)
                                          store message)
                      in case broadcast_to_room n (socket_dead env) cm1 room
                                (MESSAGE_RECEIVED message) None of
                           None \<Rightarrow> None
                         | Some cm2 \<Rightarrow>
                             map_option (\<lambda>cm'. (cm', store'))
                               (broadcast_to_room n (socket_dead env) cm2 room (AI_TYPING False) None))
                   else
                     map_option (\<lambda>cm'. (cm', store))
                       (broadcast_to_room n (socket_dead env) cm1 room (AI_TYPING False) None))))"

text \<open>
  The request that the handler hands to \<open>generate_response\<close> once the room lookup has
  returned (main.py, lines 439 to 454), and the reply it gets for it.
\<close>

definition handler_request ::
  "environment \<Rightarrow> RedisStore \<Rightarrow> string \<Rightarrow> string \<Rightarrow> string \<Rightarrow> ai_request" where
  "handler_request env store room user_message username =
     (let found = room_hashes store room;
          recent = get_recent_messages (up_history env) store room 10
      in \<lparr>req_message = user_message, req_username = username,
          req_history =
            (if recent \<noteq> [] \<and> content (last recent) = user_message
                \<and> sender_name (last recent) = username
             then butlast recent else recent),
          req_prompt = (case found of None \<Rightarrow> None | Some r \<Rightarrow> ai_system_prompt r),
          req_model = (case found of None \<Rightarrow> None | Some r \<Rightarrow> ai_model r)\<rparr>)"

definition handler_response ::
  "environment \<Rightarrow> RedisStore \<Rightarrow> string \<Rightarrow> string \<Rightarrow> string \<Rightarrow> string option" where
  "handler_response env store room user_message username =
     (let req = handler_request env store room user_message username
      in generate_response (ai_post env) (req_message req) (req_username req)
           (req_history req) (req_prompt req) (req_model req))"

text \<open>Observations used in the theorems, and sample environments.\<close>

definition presence_event :: "ws_event \<Rightarrow> bool" where
  "presence_event ev \<longleftrightarrow>
     (case ev of USER_LEFT _ _ \<Rightarrow> True | USER_LIST_UPDATED _ \<Rightarrow> True | _ \<Rightarrow> False)"

definition message_of :: "string \<times> ws_event \<Rightarrow> (string \<times> ChatMessage) list" where
  "message_of b = (case snd b of MESSAGE_RECEIVED m \<Rightarrow> [(fst b, m)] | _ \<Rightarrow> [])"

definition message_broadcasts :: "ConnectionManager \<Rightarrow> (string \<times> ChatMessage) list" where
  "message_broadcasts cm = concat (map message_of (broadcasts cm))"

definition generation_failed :: "ai_outcome \<Rightarrow> bool" where
  "generation_failed outcome \<longleftrightarrow>
     (case outcome of HTTP_response status body \<Rightarrow> status \<noteq> 200 \<or> body = None | _ \<Rightarrow> True)"

definition generation_blank :: "ai_outcome \<Rightarrow> bool" where
  "generation_blank outcome \<longleftrightarrow>
     (case outcome of HTTP_response status (Some text) \<Rightarrow> status = 200 \<and> strip text = []
      | _ \<Rightarrow> False)"

definition apologies :: "string list" where
  "apologies =
     [''Sorry, I'm having trouble processing your request right now.'',
      ''Sorry, I'm taking too long to respond. Please try again.'',
      ''Sorry, I encountered an error while processing your message.'']"

definition timeout_env :: environment where
  "timeout_env =
     \<lparr>socket_dead = no_dead, up_rooms = True, up_history = True, up_store = True,
      ai_post = (\<lambda>req. TimeoutException), new_message_id = ''m-1'',
      now = \<lparr>epoch_us = 1700000000000000, isoformat = ''2023-11-14T22:13:20''\<rparr>,
      max_chat_history = 100\<rparr>"

definition timeout_run :: "(ConnectionManager \<times> RedisStore) option" where
  "timeout_run =
     handle_ai_response 2 timeout_env alice_in_general empty_store ''general'' ''@ai hi'' ''alice''"

definition picky_env :: environment where
  "picky_env =
     timeout_env\<lparr>ai_post := (\<lambda>req. if req_message req = ''@ai hi'' then TimeoutException
                                   else HTTP_response 200 (Some ''hello''))\<rparr>"

definition outage_env :: environment where
  "outage_env = timeout_env\<lparr>up_rooms := False\<rparr>"

definition ai_contents_broadcast :: "(ConnectionManager \<times> RedisStore) option \<Rightarrow> string list option" where
  "ai_contents_broadcast run =
     map_option (\<lambda>r. map (content \<circ> snd)
                   (filter (\<lambda>b. message_type (snd b) = AI) (message_broadcasts (fst r)))) run"

definition ai_contents_stored :: "(ConnectionManager \<times> RedisStore) option \<Rightarrow> string \<Rightarrow> string list option" where
  "ai_contents_stored run room =
     map_option (\<lambda>r. map content
                   (filter (\<lambda>m. message_type m = AI) (map snd (zsets (snd r) room)))) run"

section \<open>Clearing a room's messages (backend/main.py, DELETE /rooms/{room_id}/messages)\<close>

text \<open>
  The endpoint calls \<open>chat_manager.clear_room_messages(room_id)\<close>. Class \<open>ChatManager\<close>
  (chat\_manager.py, lines 17 to 470) defines no attribute of that name, so the attribute
  lookup raises \<open>AttributeError\<close> before anything is called.
\<close>

definition ChatManager_clear_room_messages ::
  "RedisStore \<Rightarrow> string \<Rightarrow> py_exception + (bool \<times> RedisStore)" where
  "ChatManager_clear_room_messages store rid = Inl AttributeError"

definition clear_room_messages ::
  "bool \<Rightarrow> RedisStore \<Rightarrow> string \<Rightarrow> string \<Rightarrow> (http_error + string) \<times> RedisStore" where
  "clear_room_messages up store role rid =
     (if role \<noteq> ''admin''
      then (Inl (HTTPException 403 ''Only admin can clear room messages''), store)
      else
        (case get_room up store rid of
           Inl e \<Rightarrow> (Inl (HTTPException 500 ''Failed to clear room messages''), store)
         | Inr None \<Rightarrow> (Inl (HTTPException 404 ''Room not found''), store)
         | Inr (Some room) \<Rightarrow>
             (case ChatManager_clear_room_messages store rid of
                Inl e \<Rightarrow> (Inl (HTTPException 500 ''Failed to clear room messages''), store)
              | Inr (success, store') \<Rightarrow>
                  if \<not> success
                  then (Inl (HTTPException 500 ''Failed to clear room messages''), store')
                  else (Inr (''Messages cleared from room '' @ [CHR 0x27] @ room_name room
                             @ [CHR 0x27] @ '' successfully''), store'))))"

section \<open>Theorems\<close>

subsection \<open>Room access policy\<close>

text \<open>
  C1. \<open>can_user_access_room\<close> decides in the priority order of the specification: an
  admin is always admitted; otherwise a restricted (kid) account is admitted exactly to
  the default room and to the rooms it is assigned to; otherwise a user is admitted
  exactly to the rooms that are not private and to the rooms it is assigned to. In
  particular a plain user assigned to a private room is admitted, one who is not assigned
  is refused, and a restricted account with no assignment is admitted to the default room.
\<close>

theorem can_user_access_room_priority:
  "can_user_access_room room u role restricted = can_access_spec room u role restricted
   \<and> can_user_access_room (room\<lparr>is_private := True, assigned_users := [u]\<rparr>) u ''user'' False
   \<and> \<not> can_user_access_room (room\<lparr>is_private := True, assigned_users := []\<rparr>) u ''user'' False
   \<and> can_user_access_room (room\<lparr>room_id := DEFAULT_ROOM_ID, assigned_users := []\<rparr>) u ''user'' True"
  by (simp add: can_user_access_room_def can_access_spec_def DEFAULT_ROOM_ID_def)

theorem can_user_access_room_priority_witness:
  "can_user_access_room den_room ''7'' ''user'' True
   \<and> \<not> can_user_access_room den_room ''8'' ''user'' False
   \<and> can_user_access_room general_room ''8'' ''user'' True"
  using can_user_access_room_priority [of den_room "''7''" "''user''" True]
    can_user_access_room_priority [of den_room "''8''" "''user''" False]
    can_user_access_room_priority [of general_room "''8''" "''user''" True]
  by (simp add: can_access_spec_def DEFAULT_ROOM_ID_def den_room_def general_room_def)

subsection \<open>AI trigger detection\<close>

lemma re_search_iff: "re_search m s \<longleftrightarrow> (\<exists>i\<le>length s. m i)"
  unfolding re_search_def list_ex_iff set_upt by (auto simp: less_Suc_eq_le)

lemma is_space_newline: "is_space (CHR 0x0A)"
  by (simp add: is_space_def code_point_def)

lemma lookahead_iff: "k \<le> length s \<Longrightarrow> lookahead s k \<longleftrightarrow> right_delimited s k"
  by (auto simp: lookahead_def right_delimited_def at_dollar_def is_space_newline)

lemma literal_at_bound: "literal_at t s k \<Longrightarrow> k \<le> length s \<Longrightarrow> k + length t \<le> length s"
proof -
  assume a: "literal_at t s k" and k: "k \<le> length s"
  have "length (take (length t) (drop k s)) \<le> length s - k" by simp
  with a have "length t \<le> length s - k" by (simp add: literal_at_def)
  with k show ?thesis by arith
qed

lemma literal_at_nonempty:
  assumes "literal_at t s k" and "t \<noteq> []"
  shows "k < length s \<and> s ! k = hd t"
proof -
  from assms have ne: "drop k s \<noteq> []" by (auto simp: literal_at_def)
  then have k: "k < length s" by simp
  from assms have "hd t = hd (take (length t) (drop k s))" by (simp add: literal_at_def)
  also have "\<dots> = hd (drop k s)" using assms(2) by (cases "drop k s"; cases t) auto
  also have "\<dots> = s ! k" using k by (simp add: hd_drop_conv_nth)
  finally show ?thesis using k by simp
qed

lemma mention_search_iff:
  "re_search (mention_match_at t s) s \<longleftrightarrow>
     (\<exists>j. j + length t \<le> length s \<and> take (length t) (drop j s) = t
        \<and> (j = 0 \<or> is_space (s ! (j - 1))) \<and> right_delimited s (j + length t))"
  (is "?L \<longleftrightarrow> ?R")
proof
  assume ?L
  then obtain i where i: "i \<le> length s" "mention_match_at t s i"
    by (auto simp: re_search_iff)
  from i(2) show ?R unfolding mention_match_at_def
  proof
    assume a: "i = 0 \<and> literal_at t s 0 \<and> lookahead s (length t)"
    then have b: "0 + length t \<le> length s" using literal_at_bound [of t s 0] by simp
    with a have "right_delimited s (0 + length t)" by (simp add: lookahead_iff)
    with a b show ?R by (intro exI [of _ 0]) (simp add: literal_at_def)
  next
    assume a: "i < length s \<and> is_space (s ! i) \<and> literal_at t s (Suc i)
       \<and> lookahead s (Suc i + length t)"
    then have b: "Suc i + length t \<le> length s" using literal_at_bound [of t s "Suc i"] by simp
    with a have "right_delimited s (Suc i + length t)" by (simp add: lookahead_iff)
    with a b show ?R by (intro exI [of _ "Suc i"]) (simp add: literal_at_def)
  qed
next
  assume ?R
  then obtain j where j: "j + length t \<le> length s" "take (length t) (drop j s) = t"
    "j = 0 \<or> is_space (s ! (j - 1))" "right_delimited s (j + length t)" by blast
  from j(1,4) have la: "lookahead s (j + length t)" by (simp add: lookahead_iff)
  show ?L
  proof (cases j)
    case 0
    with j la have "mention_match_at t s 0" by (simp add: mention_match_at_def literal_at_def)
    then show ?thesis by (auto simp: re_search_iff)
  next
    case (Suc i)
    with j la have "mention_match_at t s i" by (simp add: mention_match_at_def literal_at_def)
    moreover from Suc j(1) have "i \<le> length s" by simp
    ultimately show ?thesis by (auto simp: re_search_iff)
  qed
qed

lemma phrase_search_iff:
  assumes "t \<noteq> []" and "is_word (hd t)"
  shows "re_search (phrase_match_at t s) s \<longleftrightarrow>
     (\<exists>j. j + length t \<le> length s \<and> take (length t) (drop j s) = t
        \<and> (j = 0 \<or> \<not> is_word (s ! (j - 1))) \<and> right_delimited s (j + length t))"
  (is "?L \<longleftrightarrow> ?R")
proof
  assume ?L
  then obtain i where i: "i \<le> length s" "word_boundary s i" "literal_at t s i"
    "lookahead s (i + length t)"
    by (auto simp: re_search_iff phrase_match_at_def)
  from i(3) assms have h: "i < length s \<and> is_word (s ! i)"
    using literal_at_nonempty [of t s i] by simp
  from i(1,3) have b: "i + length t \<le> length s" by (rule literal_at_bound [rotated])
  with i(4) have "right_delimited s (i + length t)" by (simp add: lookahead_iff)
  moreover from i(2) h have "i = 0 \<or> \<not> is_word (s ! (i - 1))"
    by (auto simp: word_boundary_def)
  ultimately show ?R using b i(3) by (intro exI [of _ i]) (simp add: literal_at_def)
next
  assume ?R
  then obtain j where j: "j + length t \<le> length s" "take (length t) (drop j s) = t"
    "j = 0 \<or> \<not> is_word (s ! (j - 1))" "right_delimited s (j + length t)" by blast
  from j(2) have lit: "literal_at t s j" by (simp add: literal_at_def)
  with assms have h: "j < length s \<and> is_word (s ! j)"
    using literal_at_nonempty [of t s j] by simp
  with j(3) have "word_boundary s j" by (auto simp: word_boundary_def)
  moreover from j(1,4) have "lookahead s (j + length t)" by (simp add: lookahead_iff)
  ultimately have "phrase_match_at t s j" using lit by (simp add: phrase_match_at_def)
  moreover from h have "j \<le> length s" by simp
  ultimately show ?L unfolding re_search_iff by blast
qed

lemma lower_triggers:
  "lower ''@ai'' = ''@ai''" "lower ''@assistant'' = ''@assistant''" "lower ''@bot'' = ''@bot''"
  "lower ''@styx'' = ''@styx''" "lower ''hey ai'' = ''hey ai''" "lower ''hey styx'' = ''hey styx''"
  "lower ''ai help'' = ''ai help''" "lower ''ai:'' = ''ai:''"
  by code_simp+

lemma should_trigger_iff:
  "should_trigger_ai_response text \<longleftrightarrow>
     (\<exists>t\<in>set AI_TRIGGERS. \<exists>j. delimited_occurrence t (lower text) j)"
  unfolding should_trigger_ai_response_def AI_TRIGGERS_def
  by (simp add: lower_triggers mention_search_iff phrase_search_iff is_word_def
      code_point_def delimited_occurrence_def)

lemma token_char_not_delim:
  "token_char c \<Longrightarrow> \<not> is_space c" "token_char c \<Longrightarrow> c \<notin> set '',.!?;:''"
  by (simp_all add: token_char_def)

lemma punctuation_codes: "c \<in> set '',.!?;:'' \<Longrightarrow> code_point c \<in> {44, 46, 33, 63, 59, 58}"
  by (auto simp: code_point_def)

lemma is_word_token_char: "is_word c \<Longrightarrow> token_char c"
proof -
  assume w: "is_word c"
  then have "\<not> is_space c" by (auto simp: is_word_def is_space_def Let_def)
  moreover from w have "c \<notin> set '',.!?;:''"
    using punctuation_codes [of c] by (auto simp: is_word_def Let_def)
  ultimately show ?thesis by (simp add: token_char_def)
qed

text \<open>
  C2 (counterexample). In "user@ai: hi" the phrase-style trigger "ai:" stands inside the
  longer token "user@ai:", right after the at-sign, and the function answers true: the
  word boundary of the phrase pattern asks only that no word character comes before.
\<close>

theorem phrase_trigger_matches_inside_token:
  "should_trigger_ai_response ''user@ai: hi''
   \<and> adjacent token_char ''ai:'' ''user@ai: hi'' 5
   \<and> delimited_occurrence ''ai:'' ''user@ai: hi'' 5"
  by code_simp

text \<open>
  C2 (amended). \<open>should_trigger_ai_response\<close> ignores case, and it answers true exactly
  when some configured trigger occurs in the lowered text delimited on both sides: a
  mention-style trigger (one that starts with the at-sign) only at the start of the string
  or after whitespace, a phrase-style trigger only where no word character comes before,
  and either only when whitespace, one of \<open>, . ! ? ; :\<close> or the end of the string
  follows. So a mention-style trigger next to any other character is no match, and no
  trigger next to a word character is a match; a phrase-style trigger right after a
  character that is neither a word character nor whitespace does match. For the
  configured triggers, "Hey Styx, what's up?" triggers, and "mystyx is cool" and
  "contact me at user@styx.com" do not.
\<close>

theorem should_trigger_ai_response_matching:
  "(lower a = lower b \<longrightarrow> should_trigger_ai_response a = should_trigger_ai_response b)
   \<and> (should_trigger_ai_response text \<longleftrightarrow>
        (\<exists>t\<in>set AI_TRIGGERS. \<exists>j. delimited_occurrence t (lower text) j))
   \<and> (\<forall>t j. take 1 t = ''@'' \<and> adjacent token_char t s j \<longrightarrow> \<not> delimited_occurrence t s j)
   \<and> (\<forall>t j. adjacent is_word t s j \<longrightarrow> \<not> delimited_occurrence t s j)
   \<and> should_trigger_ai_response ''Hey Styx, what's up?''
   \<and> \<not> should_trigger_ai_response ''mystyx is cool''
   \<and> \<not> should_trigger_ai_response ''contact me at user@styx.com''"
proof -
  have A: "lower a = lower b \<longrightarrow> should_trigger_ai_response a = should_trigger_ai_response b"
    by (simp add: should_trigger_ai_response_def)
  have B: "should_trigger_ai_response text \<longleftrightarrow>
        (\<exists>t\<in>set AI_TRIGGERS. \<exists>j. delimited_occurrence t (lower text) j)"
    by (rule should_trigger_iff)
  have right: "\<not> right_delimited s (j + length t)"
    if "j + length t < length s" and "token_char (s ! (j + length t))" for t j
  proof -
    from that(2) have "\<not> is_space (s ! (j + length t))"
      and "s ! (j + length t) \<notin> set '',.!?;:''"
      by (rule token_char_not_delim)+
    moreover from that(1) have "j + length t \<noteq> length s" by simp
    ultimately show ?thesis unfolding right_delimited_def by blast
  qed
  have C: "\<forall>t j. take 1 t = ''@'' \<and> adjacent token_char t s j \<longrightarrow> \<not> delimited_occurrence t s j"
  proof (intro allI impI notI)
    fix t j
    assume a: "take 1 t = ''@'' \<and> adjacent token_char t s j" and d: "delimited_occurrence t s j"
    from d a have l: "j = 0 \<or> is_space (s ! (j - 1))" and r: "right_delimited s (j + length t)"
      by (simp_all add: delimited_occurrence_def)
    from a consider "0 < j" "token_char (s ! (j - 1))"
      | "j + length t < length s" "token_char (s ! (j + length t))"
      unfolding adjacent_def by blast
    then show False
    proof cases
      case 1
      with l token_char_not_delim(1) [of "s ! (j - 1)"] show False by blast
    next
      case 2
      with r right show False by blast
    qed
  qed
  have D: "\<forall>t j. adjacent is_word t s j \<longrightarrow> \<not> delimited_occurrence t s j"
  proof (intro allI impI notI)
    fix t j
    assume a: "adjacent is_word t s j" and d: "delimited_occurrence t s j"
    from d have l: "j = 0 \<or> is_space (s ! (j - 1)) \<or> \<not> is_word (s ! (j - 1))"
      and r: "right_delimited s (j + length t)"
      by (auto simp: delimited_occurrence_def split: if_splits)
    from a consider "0 < j" "is_word (s ! (j - 1))"
      | "j + length t < length s" "is_word (s ! (j + length t))"
      unfolding adjacent_def by blast
    then show False
    proof cases
      case 1
      with l is_word_token_char [of "s ! (j - 1)"] token_char_not_delim(1) [of "s ! (j - 1)"]
      show False by blast
    next
      case 2
      with r right is_word_token_char [of "s ! (j + length t)"] show False by blast
    qed
  qed
  have E: "should_trigger_ai_response ''Hey Styx, what's up?''"
    by code_simp
  have F: "\<not> should_trigger_ai_response ''mystyx is cool''"
    by code_simp
  have G: "\<not> should_trigger_ai_response ''contact me at user@styx.com''"
    by code_simp
  from A B C D E F G show ?thesis by blast
qed

theorem should_trigger_ai_response_matching_witness:
  "lower ''@STYX hi'' = lower ''@styx hi''
   \<and> should_trigger_ai_response ''@STYX hi'' = should_trigger_ai_response ''@styx hi''
   \<and> take 1 ''@styx'' = ''@'' \<and> adjacent token_char ''@styx'' ''user@styx.com'' 4
   \<and> \<not> delimited_occurrence ''@styx'' ''user@styx.com'' 4
   \<and> adjacent is_word ''hey ai'' ''they ai'' 1
   \<and> \<not> delimited_occurrence ''hey ai'' ''they ai'' 1"
proof -
  have h1: "lower ''@STYX hi'' = lower ''@styx hi''"
    by code_simp
  have h2: "take 1 ''@styx'' = ''@'' \<and> adjacent token_char ''@styx'' ''user@styx.com'' 4"
    by code_simp
  have h3: "adjacent is_word ''hey ai'' ''they ai'' 1"
    by code_simp
  from h1 h2 h3
    should_trigger_ai_response_matching
      [where a = "''@STYX hi''" and b = "''@styx hi''" and s = "''user@styx.com''"]
    should_trigger_ai_response_matching [where s = "''they ai''"]
  show ?thesis by blast
qed

subsection \<open>Message store\<close>

lemma length_lastn [simp]: "length (lastn c xs) = min c (length xs)"
  by (simp add: lastn_def)

lemma lastn_all: "length xs \<le> c \<Longrightarrow> lastn c xs = xs"
  by (simp add: lastn_def)

lemma lastn_Cons: "c \<le> length xs \<Longrightarrow> lastn c (x # xs) = lastn c xs"
  by (simp add: lastn_def Suc_diff_le)

lemma set_lastn: "set (lastn c xs) \<subseteq> set xs"
  by (simp add: lastn_def set_drop_subset)

lemma lastn_insort_lastn:
  "sorted (map f xs) \<Longrightarrow> lastn c (insort_key f x (lastn c xs)) = lastn c (insort_key f x xs)"
proof (induction xs)
  case Nil
  then show ?case by (simp add: lastn_def)
next
  case (Cons y ys)
  show ?case
  proof (cases "c \<le> length ys")
    case False
    then have "length (y # ys) \<le> c" by simp
    then have "lastn c (y # ys) = y # ys" by (rule lastn_all)
    then show ?thesis by (simp only:)
  next
    case True
    then have l: "lastn c (y # ys) = lastn c ys" by (rule lastn_Cons)
    have len: "length (lastn c ys) = c" using True by simp
    show ?thesis
    proof (cases "f x \<le> f y")
      case le: True
      from Cons.prems have all: "\<forall>w\<in>set ys. f y \<le> f w" by simp
      have "\<forall>z\<in>set (lastn c ys). f x \<le> f z"
      proof
        fix z assume "z \<in> set (lastn c ys)"
        with set_lastn [of c ys] have "z \<in> set ys" by (rule subsetD)
        with all have "f y \<le> f z" by (rule bspec)
        with le show "f x \<le> f z" by (rule order_trans)
      qed
      then have a: "insort_key f x (lastn c ys) = x # lastn c ys" by (rule insort_is_Cons)
      have b: "lastn c (x # lastn c ys) = lastn c ys"
        unfolding lastn_def [of c "x # lastn c ys"] using len by simp
      from le have c1: "insort_key f x (y # ys) = x # y # ys" by simp
      have c2: "lastn c (x # y # ys) = lastn c ys"
        using True by (simp add: lastn_Cons)
      show ?thesis unfolding l a b c1 c2 ..
    next
      case False
      from Cons.prems have "sorted (map f ys)" by simp
      then have i: "lastn c (insort_key f x (lastn c ys)) = lastn c (insort_key f x ys)"
        by (rule Cons.IH)
      from False have c1: "insort_key f x (y # ys) = y # insort_key f x ys" by simp
      have c2: "lastn c (y # insort_key f x ys) = lastn c (insort_key f x ys)"
        using True by (intro lastn_Cons) simp
      show ?thesis unfolding l i c1 c2 ..
    qed
  qed
qed

lemma zremrangebyrank_trim:
  assumes "0 \<le> cap"
  shows "zremrangebyrank zs 0 (- cap - 1) = lastn (nat cap) zs"
proof (cases "int (length zs) \<le> cap")
  case True
  with assms have "rank_range (length zs) 0 (- cap - 1) = None"
    by (simp add: rank_range_def Let_def)
  moreover from True assms have "length zs \<le> nat cap" by simp
  ultimately show ?thesis by (simp add: zremrangebyrank_def lastn_all)
next
  case False
  define b where "b = nat (int (length zs) + (- cap - 1))"
  from False assms have ne: "zs \<noteq> []" by auto
  from False assms ne have "rank_range (length zs) 0 (- cap - 1) = Some (0, b)"
    by (simp add: rank_range_def Let_def b_def)
  moreover from False assms have "Suc b = length zs - nat cap"
    by (simp add: b_def)
  ultimately show ?thesis by (simp add: zremrangebyrank_def lastn_def)
qed

lemma zrevrange_recent:
  "1 \<le> limit \<Longrightarrow> rev (zrevrange zs 0 (limit - 1)) = map snd (lastn (nat limit) zs)"
proof -
  assume l: "1 \<le> limit"
  show ?thesis
  proof (cases "zs = []")
    case True
    then show ?thesis by (simp add: zrevrange_def rank_range_def lastn_def)
  next
    case False
    then have n: "0 < length zs" by simp
    define b where "b = nat (if int (length zs) \<le> limit - 1 then int (length zs) - 1 else limit - 1)"
    from l n have r: "rank_range (length zs) 0 (limit - 1) = Some (0, b)"
      by (auto simp: rank_range_def b_def Let_def)
    from l n have sb: "min (Suc b) (length zs) = min (nat limit) (length zs)"
      by (auto simp: b_def)
    have "rev (zrevrange zs 0 (limit - 1)) = rev (map snd (take (Suc b) (rev zs)))"
      using r by (simp add: zrevrange_def)
    also have "\<dots> = map snd (drop (length zs - Suc b) zs)"
      by (simp only: rev_map rev_take rev_rev_ident length_rev)
    also have "length zs - Suc b = length zs - nat limit"
      using sb by arith
    finally show ?thesis by (simp add: lastn_def)
  qed
qed

lemma zrevrange_subset: "set (zrevrange zs start stop) \<subseteq> snd ` set zs"
proof (cases "rank_range (length zs) start stop")
  case None
  then show ?thesis by (simp add: zrevrange_def)
next
  case (Some ab)
  obtain a b where "ab = (a, b)" by (cases ab)
  with Some have "zrevrange zs start stop = map snd (take (Suc b - a) (drop a (rev zs)))"
    by (simp add: zrevrange_def)
  moreover have "set (take (Suc b - a) (drop a (rev zs))) \<subseteq> set zs"
    using set_take_subset [of "Suc b - a" "drop a (rev zs)"] set_drop_subset [of a "rev zs"]
    by auto
  ultimately show ?thesis by auto
qed

lemma zsets_store_message:
  "0 \<le> cap \<Longrightarrow> zsets (snd (store_message True cap st m)) room
     = (if room = chat_room_id m
        then lastn (nat cap) (zadd (zsets st room) m (epoch_us (timestamp m)))
        else zsets st room)"
  by (simp add: store_message_def Let_def zremrangebyrank_trim)

lemma msg_hashes_store_message:
  "msg_hashes (snd (store_message True cap st m)) = (msg_hashes st)(message_id m \<mapsto> m)"
  by (simp add: store_message_def Let_def)

lemma zadd_fresh:
  assumes "\<forall>e\<in>set zs. json_dumps_message (snd e) \<noteq> json_dumps_message m"
  shows "zadd zs m (epoch_us (timestamp m)) = insort_key zkey (entry m) zs"
  using assms by (simp add: zadd_def entry_def)

lemma fold_insort_set: "set (fold (insort_key f) xs ys) = set xs \<union> set ys"
  by (induction xs arbitrary: ys) (auto simp: set_insort_key)

lemma fold_insort_length: "length (fold (insort_key f) xs ys) = length xs + length ys"
  by (induction xs arbitrary: ys) auto

lemma fold_insort_sorted:
  "sorted (map f ys) \<Longrightarrow> sorted (map f (fold (insort_key f) xs ys))"
  by (induction xs arbitrary: ys) (auto simp: sorted_insort_key)

lemma fold_insort_distinct:
  "distinct (xs @ ys) \<Longrightarrow> distinct (fold (insort_key f) xs ys)"
  by (induction xs arbitrary: ys) (auto simp: distinct_insort set_insort_key)

lemma store_all_snoc:
  "store_all cap st (ms @ [m]) = snd (store_message True cap (store_all cap st ms) m)"
  by (simp add: store_all_def)

lemma store_all_zset:
  assumes cap: "0 \<le> cap"
      and room: "\<forall>m\<in>set ms. chat_room_id m = room"
      and dist: "distinct (map json_dumps_message ms)"
      and empty: "zsets st room = []"
  shows "zsets (store_all cap st ms) room
           = lastn (nat cap) (fold (insort_key zkey) (map entry ms) [])"
  using room dist
proof (induction ms rule: rev_induct)
  case Nil
  with empty show ?case by (simp add: store_all_def lastn_def)
next
  case (snoc m ms)
  let ?S = "fold (insort_key zkey) (map entry ms) []"
  from snoc.prems have r: "\<forall>m\<in>set ms. chat_room_id m = room" and rm: "chat_room_id m = room"
    and d: "distinct (map json_dumps_message ms)"
    and new: "json_dumps_message m \<notin> json_dumps_message ` set ms"
    by auto
  from snoc.IH [OF r d] have ih: "zsets (store_all cap st ms) room = lastn (nat cap) ?S" .
  have fresh: "\<forall>e\<in>set (lastn (nat cap) ?S). json_dumps_message (snd e) \<noteq> json_dumps_message m"
  proof
    fix e assume "e \<in> set (lastn (nat cap) ?S)"
    with set_lastn [of "nat cap" ?S] have "e \<in> set ?S" by (rule subsetD)
    then have "e \<in> entry ` set ms" by (simp add: fold_insort_set)
    then obtain m' where "m' \<in> set ms" "e = entry m'" by blast
    from this(1) have "json_dumps_message m' \<in> json_dumps_message ` set ms" by (rule imageI)
    with new have "json_dumps_message m' \<noteq> json_dumps_message m" by metis
    with \<open>e = entry m'\<close> show "json_dumps_message (snd e) \<noteq> json_dumps_message m"
      by (simp add: entry_def)
  qed
  have sorted: "sorted (map zkey ?S)" by (rule fold_insort_sorted) simp
  have "zsets (store_all cap st (ms @ [m])) room
          = lastn (nat cap) (zadd (lastn (nat cap) ?S) m (epoch_us (timestamp m)))"
    using cap rm ih by (simp add: store_all_snoc zsets_store_message)
  also have "\<dots> = lastn (nat cap) (insort_key zkey (entry m) (lastn (nat cap) ?S))"
    by (simp only: zadd_fresh [OF fresh])
  also have "\<dots> = lastn (nat cap) (insort_key zkey (entry m) ?S)"
    using sorted by (rule lastn_insort_lastn)
  also have "insort_key zkey (entry m) ?S = fold (insort_key zkey) (map entry (ms @ [m])) []"
    by simp
  finally show ?case .
qed

lemma zkey_entry_inj:
  "distinct (map json_dumps_message ms) \<Longrightarrow> distinct (map zkey (map entry ms))"
proof -
  assume d: "distinct (map json_dumps_message ms)"
  have "map json_dumps_message ms = map snd (map zkey (map entry ms))"
    by (simp add: zkey_def entry_def)
  with d have "distinct (map snd (map zkey (map entry ms)))" by simp
  then show ?thesis using distinct_map [of snd "map zkey (map entry ms)"] by blast
qed

lemma sorted_lastn: "sorted (map f xs) \<Longrightarrow> sorted (map f (lastn c xs))"
  unfolding lastn_def drop_map [symmetric] by (rule sorted_wrt_drop)

lemma msg_hashes_store_all:
  assumes "distinct (map message_id ms)" and "m \<in> set ms"
  shows "msg_hashes (store_all cap st ms) (message_id m) = Some m"
  using assms
proof (induction ms rule: rev_induct)
  case Nil
  then show ?case by simp
next
  case (snoc x xs)
  show ?case
  proof (cases "m = x")
    case True
    then show ?thesis by (simp add: store_all_snoc msg_hashes_store_message)
  next
    case False
    with snoc.prems have in_xs: "m \<in> set xs" and d: "distinct (map message_id xs)" by auto
    from in_xs have "message_id m \<in> message_id ` set xs" by (rule imageI)
    moreover from snoc.prems(1) have "message_id x \<notin> message_id ` set xs" by simp
    ultimately have "message_id m \<noteq> message_id x" by metis
    with snoc.IH [OF d in_xs] show ?thesis
      by (simp add: store_all_snoc msg_hashes_store_message)
  qed
qed

lemma newest_of_lastn:
  assumes dist: "distinct (map json_dumps_message ms)"
  shows "newest_of c ms (lastn c (fold (insort_key zkey) (map entry ms) []))"
proof -
  let ?S = "fold (insort_key zkey) (map entry ms) []"
  let ?k = "length ?S - c"
  have set_S: "set ?S = entry ` set ms" by (simp add: fold_insort_set)
  have sorted_S: "sorted (map zkey ?S)" by (rule fold_insort_sorted) simp
  from zkey_entry_inj [OF dist] have de: "distinct (map entry ms)" and inj: "inj_on zkey (entry ` set ms)"
    using distinct_map [of zkey "map entry ms"] by auto
  from de have "distinct ?S" by (intro fold_insort_distinct) simp
  with inj set_S have dS: "distinct (map zkey ?S)" by (simp add: distinct_map)
  have split: "?S = take ?k ?S @ lastn c ?S" by (simp add: lastn_def)
  have a: "sorted (map zkey (lastn c ?S))" using sorted_S by (rule sorted_lastn)
  have b: "length (lastn c ?S) = min c (length ms)" by (simp add: fold_insort_length)
  have c: "set (lastn c ?S) \<subseteq> entry ` set ms" using set_lastn [of c ?S] set_S by simp
  have d: "\<forall>m\<in>set ms. entry m \<notin> set (lastn c ?S)
             \<longrightarrow> (\<forall>e\<in>set (lastn c ?S). zkey (entry m) < zkey e)"
  proof (intro ballI impI)
    fix m e
    assume m: "m \<in> set ms" and out: "entry m \<notin> set (lastn c ?S)" and e: "e \<in> set (lastn c ?S)"
    from m set_S have "entry m \<in> set ?S" by blast
    then have "entry m \<in> set (take ?k ?S) \<union> set (lastn c ?S)"
      by (subst (asm) split) simp
    with out have t: "entry m \<in> set (take ?k ?S)" by blast
    from sorted_S have "sorted (map zkey (take ?k ?S) @ map zkey (lastn c ?S))"
      by (subst (asm) split) simp
    with t e have le: "zkey (entry m) \<le> zkey e" by (auto simp: sorted_append)
    from dS have "distinct (map zkey (take ?k ?S) @ map zkey (lastn c ?S))"
      by (subst (asm) split) simp
    with t e have "zkey (entry m) \<noteq> zkey e" by auto
    with le show "zkey (entry m) < zkey e" by (rule order.not_eq_order_implies_strict [rotated])
  qed
  from a b c d show ?thesis unfolding newest_of_def by blast
qed

lemma get_recent_messages_lastn:
  "1 \<le> limit \<Longrightarrow>
   get_recent_messages True st room limit = map snd (lastn (nat limit) (zsets st room))"
  by (simp add: get_recent_messages_def zrevrange_recent)

lemma get_recent_messages_subset:
  "set (get_recent_messages up st room limit) \<subseteq> snd ` set (zsets st room)"
  using zrevrange_subset [of "zsets st room" 0 "limit - 1"]
  by (simp add: get_recent_messages_def)

lemma fst_zkey_sorted: "sorted (map zkey zs) \<Longrightarrow> sorted (map fst zs)"
proof -
  assume "sorted (map zkey zs)"
  then have "sorted_wrt (\<lambda>x y. zkey x \<le> zkey y) zs" by (simp add: sorted_wrt_map)
  then have "sorted_wrt (\<lambda>x y. fst x \<le> fst y) zs"
    by (rule sorted_wrt_mono_rel [rotated]) (auto simp: zkey_def)
  then show ?thesis by (simp add: sorted_wrt_map)
qed

text \<open>
  C5 (counterexample). With a cap of 1 and two messages stored, the older one is trimmed
  from the room's collection and is still returned by \<open>get_message\<close>; and with both kept,
  a limit of 0 returns both.
\<close>

theorem trimmed_message_still_readable:
  "get_recent_messages True two_stored ''general'' 50 = [msg_new]
   \<and> get_message True two_stored ''m-old'' = Some msg_old
   \<and> get_recent_messages True two_kept ''general'' 0 = [msg_old, msg_new]"
  by code_simp

text \<open>
  C5 (amended). Store \<open>N\<close> distinct messages of one room, in any order of timestamps,
  with cap \<open>C \<ge> 0\<close>, starting from an empty collection. The collection then holds the
  \<open>min N C\<close> newest entries in ascending order of (timestamp, serialised bytes), and every
  message left out is older than every entry kept. For a limit \<open>L \<ge> 1\<close>,
  \<open>get_recent_messages\<close> returns the last \<open>L\<close> entries of the collection (all of them
  if there are fewer), in ascending order of timestamp; for no limit does it return a
  message that was trimmed. \<open>get_message\<close> still returns every stored message by its
  id, trimmed or not.
\<close>

theorem store_keeps_newest:
  assumes "0 \<le> cap"
      and "\<forall>m\<in>set ms. chat_room_id m = room"
      and "distinct (map json_dumps_message ms)"
      and "distinct (map message_id ms)"
      and "zsets st room = []"
  shows "newest_of (nat cap) ms (zsets (store_all cap st ms) room)
         \<and> (\<forall>limit\<ge>1. get_recent_messages True (store_all cap st ms) room limit
                          = map snd (lastn (nat limit) (zsets (store_all cap st ms) room))
                        \<and> sorted (map (epoch_us \<circ> timestamp)
                                    (get_recent_messages True (store_all cap st ms) room limit)))
         \<and> (\<forall>limit. set (get_recent_messages True (store_all cap st ms) room limit)
                        \<subseteq> snd ` set (zsets (store_all cap st ms) room))
         \<and> (\<forall>m\<in>set ms. get_message True (store_all cap st ms) (message_id m) = Some m)"
proof -
  let ?zs = "zsets (store_all cap st ms) room"
  have zs: "?zs = lastn (nat cap) (fold (insort_key zkey) (map entry ms) [])"
    by (rule store_all_zset) fact+
  have n: "newest_of (nat cap) ms ?zs"
    unfolding zs using assms(3) by (rule newest_of_lastn)
  have r: "get_recent_messages True (store_all cap st ms) room limit
             = map snd (lastn (nat limit) ?zs)
           \<and> sorted (map (epoch_us \<circ> timestamp)
                       (get_recent_messages True (store_all cap st ms) room limit))"
    if l: "1 \<le> limit" for limit
  proof -
    from n have s: "sorted (map zkey ?zs)" and sub: "set ?zs \<subseteq> entry ` set ms"
      by (simp_all add: newest_of_def)
    from s have "sorted (map zkey (lastn (nat limit) ?zs))" by (rule sorted_lastn)
    then have f: "sorted (map fst (lastn (nat limit) ?zs))" by (rule fst_zkey_sorted)
    have "\<forall>e\<in>set (lastn (nat limit) ?zs). fst e = epoch_us (timestamp (snd e))"
    proof
      fix e assume "e \<in> set (lastn (nat limit) ?zs)"
      with set_lastn [of "nat limit" ?zs] have "e \<in> set ?zs" by (rule subsetD)
      with sub obtain m where "e = entry m" by blast
      then show "fst e = epoch_us (timestamp (snd e))" by (simp add: entry_def)
    qed
    then have "map fst (lastn (nat limit) ?zs)
                 = map (epoch_us \<circ> timestamp) (map snd (lastn (nat limit) ?zs))"
      by simp
    with f get_recent_messages_lastn [OF l] show ?thesis by simp
  qed
  have g: "get_message True (store_all cap st ms) (message_id m) = Some m" if "m \<in> set ms" for m
    using msg_hashes_store_all [OF assms(4) that] by (simp add: get_message_def)
  from n r g get_recent_messages_subset show ?thesis by blast
qed

theorem store_keeps_newest_witness:
  "(0::int) \<le> 1 \<and> chat_room_id msg_old = ''general'' \<and> chat_room_id msg_new = ''general''
   \<and> distinct (map json_dumps_message [msg_old, msg_new])
   \<and> distinct (map message_id [msg_old, msg_new])
   \<and> zsets empty_store ''general'' = []
   \<and> get_recent_messages True (store_all 1 empty_store [msg_old, msg_new]) ''general'' 5
       = map snd (lastn (nat 5) (zsets (store_all 1 empty_store [msg_old, msg_new]) ''general''))
   \<and> get_message True (store_all 1 empty_store [msg_old, msg_new]) (message_id msg_old)
       = Some msg_old"
proof -
  have h1: "(0::int) \<le> 1" by simp
  have r: "chat_room_id msg_old = ''general''" "chat_room_id msg_new = ''general''"
    by (simp_all add: msg_old_def msg_new_def)
  then have h2: "\<forall>m\<in>set [msg_old, msg_new]. chat_room_id m = ''general''" by simp
  have h3: "distinct (map json_dumps_message [msg_old, msg_new])" by code_simp
  have h4: "distinct (map message_id [msg_old, msg_new])"
    by (simp add: msg_old_def msg_new_def)
  have h5: "zsets empty_store ''general'' = []" by (simp add: empty_store_def)
  have h6: "msg_old \<in> set [msg_old, msg_new]" and h7: "(1::int) \<le> 5" by simp_all
  from store_keeps_newest [OF h1 h2 h3 h4 h5] h1 r h3 h4 h5 h6 h7 show ?thesis by blast
qed

text \<open>
  C6 (counterexample). Two messages with the same timestamp: the one stored second is
  read back first, because its serialised form (which starts with its message id) is the
  smaller byte string.
\<close>

theorem tie_read_back_against_insertion_order:
  "get_recent_messages True tie_stored ''general'' 50 = [tie_second, tie_first]"
  by code_simp

text \<open>
  C6 (amended). The order of a room's collection is total and deterministic, and it does
  not depend on the insertion sequence: storing two new, different messages in either
  order gives the same collection and the same answer to every read of recent messages.
  The collection is ascending in (timestamp, serialised bytes), so entries with equal
  timestamps stand in the byte order of their serialised form.
\<close>

theorem ties_ordered_by_serialised_bytes:
  assumes "0 \<le> cap"
      and "sorted (map zkey (zsets st room))"
      and "chat_room_id a = room" and "chat_room_id b = room"
      and "json_dumps_message a \<noteq> json_dumps_message b"
      and "\<forall>e\<in>set (zsets st room). json_dumps_message (snd e) \<noteq> json_dumps_message a
                                   \<and> json_dumps_message (snd e) \<noteq> json_dumps_message b"
  shows "zsets (store_all cap st [a, b]) room = zsets (store_all cap st [b, a]) room
         \<and> (\<forall>limit. get_recent_messages True (store_all cap st [a, b]) room limit
                      = get_recent_messages True (store_all cap st [b, a]) room limit)
         \<and> sorted (map zkey (zsets (store_all cap st [a, b]) room))
         \<and> equal_scores_in_byte_order (zsets (store_all cap st [a, b]) room)"
proof -
  let ?z0 = "zsets st room"
  let ?c = "nat cap"
  have two: "zsets (store_all cap st [x, y]) room
               = lastn ?c (insort_key zkey (entry y) (insort_key zkey (entry x) ?z0))"
    if x: "chat_room_id x = room" and y: "chat_room_id y = room"
      and xy: "json_dumps_message x \<noteq> json_dumps_message y"
      and fx: "\<forall>e\<in>set ?z0. json_dumps_message (snd e) \<noteq> json_dumps_message x"
      and fy: "\<forall>e\<in>set ?z0. json_dumps_message (snd e) \<noteq> json_dumps_message y" for x y
  proof -
    let ?z1 = "lastn ?c (insort_key zkey (entry x) ?z0)"
    have z1: "zsets (snd (store_message True cap st x)) room = ?z1"
      using assms(1) x by (simp add: zsets_store_message zadd_fresh [OF fx])
    have fresh: "\<forall>e\<in>set ?z1. json_dumps_message (snd e) \<noteq> json_dumps_message y"
    proof
      fix e assume "e \<in> set ?z1"
      with set_lastn [of ?c "insort_key zkey (entry x) ?z0"]
      have "e \<in> set (insort_key zkey (entry x) ?z0)" by (rule subsetD)
      then have "e = entry x \<or> e \<in> set ?z0" by (simp add: set_insort_key)
      with xy fy show "json_dumps_message (snd e) \<noteq> json_dumps_message y"
        by (auto simp: entry_def)
    qed
    have s1: "sorted (map zkey (insort_key zkey (entry x) ?z0))"
      using assms(2) by (simp add: sorted_insort_key)
    have "zsets (store_all cap st [x, y]) room
            = lastn ?c (zadd ?z1 y (epoch_us (timestamp y)))"
      using assms(1) y z1 by (simp add: store_all_def zsets_store_message)
    also have "\<dots> = lastn ?c (insort_key zkey (entry y) ?z1)"
      by (simp only: zadd_fresh [OF fresh])
    also have "\<dots> = lastn ?c (insort_key zkey (entry y) (insort_key zkey (entry x) ?z0))"
      using s1 by (rule lastn_insort_lastn)
    finally show ?thesis .
  qed
  from assms(6) have fa: "\<forall>e\<in>set ?z0. json_dumps_message (snd e) \<noteq> json_dumps_message a"
    and fb: "\<forall>e\<in>set ?z0. json_dumps_message (snd e) \<noteq> json_dumps_message b" by blast+
  have ne: "zkey (entry a) \<noteq> zkey (entry b)"
    using assms(5) by (simp add: zkey_def entry_def)
  have ab: "zsets (store_all cap st [a, b]) room
              = lastn ?c (insort_key zkey (entry b) (insort_key zkey (entry a) ?z0))"
    using assms(3,4,5) fa fb by (rule two)
  have ba: "zsets (store_all cap st [b, a]) room
              = lastn ?c (insort_key zkey (entry a) (insort_key zkey (entry b) ?z0))"
    using assms(4,3) assms(5) [symmetric] fb fa by (rule two)
  have eq: "zsets (store_all cap st [a, b]) room = zsets (store_all cap st [b, a]) room"
    unfolding ab ba
    by (simp only: insort_key_left_comm [of zkey "entry a" "entry b" ?z0, OF ne])
  have reads: "get_recent_messages True (store_all cap st [a, b]) room limit
                 = get_recent_messages True (store_all cap st [b, a]) room limit" for limit
    using eq by (simp add: get_recent_messages_def)
  have srt: "sorted (map zkey (zsets (store_all cap st [a, b]) room))"
    unfolding ab using assms(2) by (intro sorted_lastn) (simp add: sorted_insort_key)
  have "equal_scores_in_byte_order (zsets (store_all cap st [a, b]) room)"
    unfolding equal_scores_in_byte_order_def
  proof (intro allI impI)
    fix i j
    let ?zs = "zsets (store_all cap st [a, b]) room"
    assume h: "i < j \<and> j < length ?zs \<and> fst (?zs ! i) = fst (?zs ! j)"
    then have "i \<le> j" "j < length (map zkey ?zs)" by simp_all
    with srt have "map zkey ?zs ! i \<le> map zkey ?zs ! j" by (rule sorted_nth_mono)
    with h have "zkey (?zs ! i) \<le> zkey (?zs ! j)" by simp
    with h show "json_dumps_message (snd (?zs ! i)) \<le> json_dumps_message (snd (?zs ! j))"
      by (simp add: zkey_def)
  qed
  with eq reads srt show ?thesis by blast
qed

theorem ties_ordered_by_serialised_bytes_witness:
  "(0::int) \<le> 100 \<and> sorted (map zkey (zsets empty_store ''general''))
   \<and> chat_room_id tie_first = ''general'' \<and> chat_room_id tie_second = ''general''
   \<and> json_dumps_message tie_first \<noteq> json_dumps_message tie_second
   \<and> zsets (store_all 100 empty_store [tie_first, tie_second]) ''general''
       = zsets (store_all 100 empty_store [tie_second, tie_first]) ''general''
   \<and> sorted (map zkey (zsets (store_all 100 empty_store [tie_first, tie_second]) ''general''))"
proof -
  have h1: "(0::int) \<le> 100" by simp
  have h2: "sorted (map zkey (zsets empty_store ''general''))" by (simp add: empty_store_def)
  have h3: "chat_room_id tie_first = ''general''" and h4: "chat_room_id tie_second = ''general''"
    by (simp_all add: tie_first_def tie_second_def)
  have h5: "json_dumps_message tie_first \<noteq> json_dumps_message tie_second" by code_simp
  have h6: "\<forall>e\<in>set (zsets empty_store ''general'').
              json_dumps_message (snd e) \<noteq> json_dumps_message tie_first
              \<and> json_dumps_message (snd e) \<noteq> json_dumps_message tie_second"
    by (simp add: empty_store_def)
  from ties_ordered_by_serialised_bytes [OF h1 h2 h3 h4 h5 h6] h1 h2 h3 h4 h5
  show ?thesis by blast
qed

subsection \<open>Connection registry\<close>

lemma delete_shrinks: "map_of al k = Some v \<Longrightarrow> length (AList.delete k al) < length al"
proof (induction al)
  case Nil
  then show ?case by simp
next
  case (Cons a al)
  have le: "length (AList.delete k al) \<le> length al" by (rule length_delete_le)
  show ?case
  proof (cases "fst a = k")
    case True
    with le show ?thesis by (cases a) (simp add: le_imp_less_Suc)
  next
    case False
    with Cons show ?thesis by (cases a) auto
  qed
qed

lemma user_info_discard_member [simp]: "user_info (discard_member cm room uid) = user_info cm"
  by (simp add: discard_member_def Let_def split: option.splits)

lemma user_info_log [simp]:
  "user_info (log_broadcast cm room ev) = user_info cm"
  "user_info (log_sent cm uid ev) = user_info cm"
  by (simp_all add: log_broadcast_def log_sent_def)

lemma cascade_invariant:
  assumes left: "\<And>cm v info. Q cm \<Longrightarrow> map_of (user_info cm) v = Some info \<Longrightarrow>
            Q (log_broadcast (discard_member (pop_user cm v) (ci_room_id info) v)
                 (ci_room_id info) (USER_LEFT v (ci_username info)))"
      and lst: "\<And>cm room l. Q cm \<Longrightarrow> Q (log_broadcast cm room (USER_LIST_UPDATED l))"
      and snt: "\<And>cm v ws ev. Q cm \<Longrightarrow> map_of (connections cm) v = Some ws \<Longrightarrow>
            Q (log_sent cm v ev)"
  shows "Q cm \<Longrightarrow> disconnect n dead cm uid = Some cm' \<Longrightarrow> Q cm'"
    and "Q cm \<Longrightarrow> send_to_user n dead cm uid ev = Some cm' \<Longrightarrow> Q cm'"
    and "Q cm \<Longrightarrow> broadcast_loop n dead cm us ev ex = Some cm' \<Longrightarrow> Q cm'"
    and "Q (log_broadcast cm room ev) \<Longrightarrow> broadcast_to_room n dead cm room ev ex = Some cm' \<Longrightarrow> Q cm'"
proof (induction n dead cm uid and n dead cm uid ev and n dead cm us ev ex and n dead cm room ev ex
    arbitrary: cm' and cm' and cm' and cm'
    rule: disconnect_send_to_user_broadcast_loop_broadcast_to_room.induct)
  case (1 dead cm uid)
  then show ?case by simp
next
  case (2 n dead cm uid)
  show ?case
  proof (cases "map_of (user_info cm) uid")
    case None
    with "2.prems" show ?thesis by simp
  next
    case (Some info)
    define room where "room = ci_room_id info"
    define cm1 where "cm1 = discard_member (pop_user cm uid) room uid"
    from "2.prems"(2) Some obtain cm2 where
      b1: "broadcast_to_room n dead cm1 room (USER_LEFT uid (ci_username info)) None = Some cm2"
      and b2: "broadcast_to_room n dead cm2 room
                 (USER_LIST_UPDATED (get_active_users_info cm2 room)) None = Some cm'"
      by (auto simp: room_def cm1_def Let_def split: option.splits)
    from left [OF "2.prems"(1) Some]
    have "Q (log_broadcast cm1 room (USER_LEFT uid (ci_username info)))"
      by (simp add: room_def cm1_def)
    with b1 have q2: "Q cm2"
      using "2.IH"(1) [OF Some room_def refl cm1_def] by blast
    then have "Q (log_broadcast cm2 room (USER_LIST_UPDATED (get_active_users_info cm2 room)))"
      by (rule lst)
    with b2 show ?thesis
      using "2.IH"(2) [OF Some room_def refl cm1_def b1] by blast
  qed
next
  case (3 n dead cm uid ev)
  show ?case
  proof (cases "map_of (connections cm) uid")
    case None
    with "3.prems" show ?thesis by simp
  next
    case (Some ws)
    show ?thesis
    proof (cases "dead ws")
      case True
      with Some "3.prems" "3.IH" [OF Some True] show ?thesis by simp
    next
      case False
      with Some "3.prems" snt [OF "3.prems"(1) Some] show ?thesis by auto
    qed
  qed
next
  case (4 n dead cm ev ex)
  then show ?case by simp
next
  case (5 n dead cm uid rest ev ex)
  show ?case
  proof (cases "excluded ex uid")
    case True
    with "5.prems" "5.IH"(1) show ?thesis by simp
  next
    case False
    with "5.prems"(2) obtain cm1 where
      s: "send_to_user n dead cm uid ev = Some cm1"
      and l: "broadcast_loop n dead cm1 rest ev ex = Some cm'"
      by (auto split: option.splits)
    from "5.IH"(2) [OF False "5.prems"(1) s] have "Q cm1" .
    with "5.IH"(3) [OF False s _ l] show ?thesis by blast
  qed
next
  case (6 n dead cm room ev ex)
  show ?case
  proof (cases "map_of (room_members cm) room")
    case None
    with "6.prems" show ?thesis by simp
  next
    case (Some members)
    with "6.prems" "6.IH" [OF Some] show ?thesis by simp
  qed
qed

lemma user_info_shrinks:
  "disconnect n dead cm uid = Some cm' \<Longrightarrow> length (user_info cm') \<le> length (user_info cm)"
  "send_to_user n dead cm uid ev = Some cm' \<Longrightarrow> length (user_info cm') \<le> length (user_info cm)"
  "broadcast_loop n dead cm us ev ex = Some cm' \<Longrightarrow> length (user_info cm') \<le> length (user_info cm)"
  "broadcast_to_room n dead cm room ev ex = Some cm' \<Longrightarrow> length (user_info cm') \<le> length (user_info cm)"
proof -
  let ?Q = "\<lambda>c. length (user_info c) \<le> length (user_info cm)"
  have left: "?Q (log_broadcast (discard_member (pop_user c v) (ci_room_id info) v)
                 (ci_room_id info) (USER_LEFT v (ci_username info)))" if "?Q c" for c v info
    using that length_delete_le [of v "user_info c"] by (simp add: pop_user_def)
  have lst: "?Q (log_broadcast c room (USER_LIST_UPDATED l))" if "?Q c" for c room l
    using that by simp
  have snt: "?Q (log_sent c v ev)" if "?Q c" for c v ev
    using that by simp
  note inv = cascade_invariant [where Q = ?Q, OF left lst snt]
  show "disconnect n dead cm uid = Some cm' \<Longrightarrow> length (user_info cm') \<le> length (user_info cm)"
    using inv(1) [of cm n dead uid cm'] by simp
  show "send_to_user n dead cm uid ev = Some cm' \<Longrightarrow> length (user_info cm') \<le> length (user_info cm)"
    using inv(2) [of cm n dead uid ev cm'] by simp
  show "broadcast_loop n dead cm us ev ex = Some cm' \<Longrightarrow> length (user_info cm') \<le> length (user_info cm)"
    using inv(3) [of cm n dead us ev ex cm'] by simp
  show "broadcast_to_room n dead cm room ev ex = Some cm' \<Longrightarrow> length (user_info cm') \<le> length (user_info cm)"
    using inv(4) [of cm room ev n dead ex cm'] by simp
qed

lemma fuel_enough:
  "length (user_info cm) < n \<Longrightarrow> \<exists>cm'. disconnect n dead cm uid = Some cm'"
  "length (user_info cm) < n \<Longrightarrow> \<exists>cm'. send_to_user n dead cm uid ev = Some cm'"
  "length (user_info cm) < n \<Longrightarrow> \<exists>cm'. broadcast_loop n dead cm us ev ex = Some cm'"
  "length (user_info cm) < n \<Longrightarrow> \<exists>cm'. broadcast_to_room n dead cm room ev ex = Some cm'"
proof (induction n dead cm uid and n dead cm uid ev and n dead cm us ev ex and n dead cm room ev ex
    rule: disconnect_send_to_user_broadcast_loop_broadcast_to_room.induct)
  case (1 dead cm uid)
  then show ?case by simp
next
  case (2 n dead cm uid)
  show ?case
  proof (cases "map_of (user_info cm) uid")
    case None
    then show ?thesis by simp
  next
    case (Some info)
    define room where "room = ci_room_id info"
    define cm1 where "cm1 = discard_member (pop_user cm uid) room uid"
    from Some "2.prems" have small: "length (user_info cm1) < n"
      using delete_shrinks [of "user_info cm" uid info] by (simp add: cm1_def pop_user_def)
    with "2.IH"(1) [OF Some room_def refl cm1_def] obtain cm2 where
      b1: "broadcast_to_room n dead cm1 room (USER_LEFT uid (ci_username info)) None = Some cm2"
      by blast
    from user_info_shrinks(4) [OF b1] small have "length (user_info cm2) < n" by simp
    with "2.IH"(2) [OF Some room_def refl cm1_def b1] obtain cm3 where
      "broadcast_to_room n dead cm2 room
         (USER_LIST_UPDATED (get_active_users_info cm2 room)) None = Some cm3"
      by blast
    with Some b1 show ?thesis by (simp add: room_def cm1_def Let_def)
  qed
next
  case (3 n dead cm uid ev)
  show ?case
  proof (cases "map_of (connections cm) uid")
    case None
    then show ?thesis by simp
  next
    case (Some ws)
    with "3.prems" "3.IH" [OF Some] show ?thesis by (cases "dead ws") auto
  qed
next
  case (4 n dead cm ev ex)
  then show ?case by simp
next
  case (5 n dead cm uid rest ev ex)
  show ?case
  proof (cases "excluded ex uid")
    case True
    with "5.prems" "5.IH"(1) show ?thesis by simp
  next
    case False
    from "5.IH"(2) [OF False "5.prems"] obtain cm1 where
      s: "send_to_user n dead cm uid ev = Some cm1" by blast
    from user_info_shrinks(2) [OF s] "5.prems" have "length (user_info cm1) < n" by simp
    with "5.IH"(3) [OF False s] obtain cm2 where
      "broadcast_loop n dead cm1 rest ev ex = Some cm2" by blast
    with False s show ?thesis by simp
  qed
next
  case (6 n dead cm room ev ex)
  show ?case
  proof (cases "map_of (room_members cm) room")
    case None
    then show ?thesis by simp
  next
    case (Some members)
    with "6.prems" "6.IH" [OF Some] show ?thesis by simp
  qed
qed

lemma is_member_discard:
  "\<not> is_member cm room uid \<Longrightarrow> \<not> is_member (discard_member cm room' v) room uid"
  by (auto simp: is_member_def discard_member_def Let_def update_conv' delete_conv'
      split: option.splits if_splits)

lemma is_member_discard_self: "\<not> is_member (discard_member cm room uid) room uid"
  by (auto simp: is_member_def discard_member_def Let_def update_conv' delete_conv'
      split: option.splits if_splits)

lemma is_member_frame [simp]:
  "is_member (pop_user cm v) room uid = is_member cm room uid"
  "is_member (log_broadcast cm r ev) room uid = is_member cm room uid"
  "is_member (log_sent cm v ev) room uid = is_member cm room uid"
  by (simp_all add: is_member_def pop_user_def log_broadcast_def log_sent_def)

lemma connections_frame [simp]:
  "connections (discard_member cm room uid) = connections cm"
  "connections (log_broadcast cm room ev) = connections cm"
  "connections (log_sent cm uid ev) = connections cm"
  "connections (pop_user cm uid) = AList.delete uid (connections cm)"
  "user_info (pop_user cm uid) = AList.delete uid (user_info cm)"
  by (simp_all add: discard_member_def Let_def log_broadcast_def log_sent_def pop_user_def
      split: option.splits)

lemma user_left_count_frame [simp]:
  "user_left_count uid (discard_member cm room v) = user_left_count uid cm"
  "user_left_count uid (pop_user cm v) = user_left_count uid cm"
  "user_left_count uid (log_sent cm v ev) = user_left_count uid cm"
  "user_left_count uid (log_broadcast cm room ev)
     = user_left_count uid cm + (if is_user_left uid ev then 1 else 0)"
  by (simp_all add: user_left_count_def discard_member_def Let_def log_broadcast_def
      log_sent_def pop_user_def split: option.splits)

lemma gone_kept:
  "gone uid room k cm \<Longrightarrow> map_of (user_info cm) v = Some info \<Longrightarrow>
     gone uid room k (log_broadcast (discard_member (pop_user cm v) (ci_room_id info) v)
                 (ci_room_id info) (USER_LEFT v (ci_username info)))"
  "gone uid room k cm \<Longrightarrow> gone uid room k (log_broadcast cm r (USER_LIST_UPDATED l))"
  "gone uid room k cm \<Longrightarrow> gone uid room k (log_sent cm v ev)"
  by (auto simp: gone_def delete_conv' is_member_discard is_user_left_def)

text \<open>
  C8. \<open>disconnect\<close> is idempotent. With enough depth for the cascade it returns, and a
  second call on the resulting state returns that state unchanged, logs included, so it
  broadcasts nothing. For a registered user the first call removes the connection, the
  user info and the membership entry in the user's room, and the log of broadcasts gains
  exactly one \<open>user_left\<close> for this user; for an unknown user the first call is already a
  no-op.
\<close>

theorem disconnect_idempotent:
  assumes "length (user_info cm) < n"
  shows "\<exists>cm1. disconnect n dead cm uid = Some cm1
           \<and> disconnect n dead cm1 uid = Some cm1
           \<and> (case map_of (user_info cm) uid of
                None \<Rightarrow> cm1 = cm
              | Some info \<Rightarrow>
                  map_of (user_info cm1) uid = None \<and> map_of (connections cm1) uid = None
                  \<and> \<not> is_member cm1 (ci_room_id info) uid
                  \<and> user_left_count uid cm1 = user_left_count uid cm + 1)"
proof -
  from assms obtain m where n: "n = Suc m" by (cases n) auto
  from fuel_enough(1) [OF assms] obtain cm1 where d: "disconnect n dead cm uid = Some cm1"
    by blast
  show ?thesis
  proof (cases "map_of (user_info cm) uid")
    case None
    with d n show ?thesis by simp
  next
    case (Some info)
    define room where "room = ci_room_id info"
    define c0 where "c0 = discard_member (pop_user cm uid) room uid"
    let ?G = "gone uid room (user_left_count uid cm + 1)"
    from d Some n obtain c2 where
      b1: "broadcast_to_room m dead c0 room (USER_LEFT uid (ci_username info)) None = Some c2"
      and b2: "broadcast_to_room m dead c2 room
                 (USER_LIST_UPDATED (get_active_users_info c2 room)) None = Some cm1"
      by (auto simp: room_def c0_def Let_def split: option.splits)
    have inv: "?G c'" if "?G (log_broadcast c r e)"
      and "broadcast_to_room k dead c r e x = Some c'" for c r e k x c'
      by (rule cascade_invariant(4) [where Q = ?G, OF _ _ _ that]) (simp_all add: gone_kept)
    have "?G (log_broadcast c0 room (USER_LEFT uid (ci_username info)))"
      by (simp add: gone_def c0_def delete_conv' is_member_discard_self is_user_left_def)
    from inv [OF this b1] have "?G c2" .
    then have "?G (log_broadcast c2 room (USER_LIST_UPDATED (get_active_users_info c2 room)))"
      by (rule gone_kept(2))
    from inv [OF this b2] have g: "?G cm1" .
    then have "map_of (user_info cm1) uid = None" by (simp add: gone_def)
    with n have "disconnect n dead cm1 uid = Some cm1" by simp
    with d g Some show ?thesis by (simp add: gone_def room_def)
  qed
qed

theorem disconnect_idempotent_witness:
  "length (user_info alice_in_general) < 2
   \<and> (\<exists>cm1. disconnect 2 no_dead alice_in_general ''1'' = Some cm1
          \<and> disconnect 2 no_dead cm1 ''1'' = Some cm1
          \<and> map_of (user_info cm1) ''1'' = None
          \<and> user_left_count ''1'' cm1 = 1)"
proof -
  have h: "length (user_info alice_in_general) < 2"
    by (simp add: alice_in_general_def)
  have i: "map_of (user_info alice_in_general) ''1''
             = Some \<lparr>ci_user_id = ''1'', ci_username = ''alice'', ci_room_id = ''general'',
                     websocket_id = ''w7''\<rparr>"
    and c: "user_left_count ''1'' alice_in_general = 0"
    by (simp_all add: alice_in_general_def user_left_count_def)
  from disconnect_idempotent [OF h, of no_dead "''1''"] h i c show ?thesis
    by simp blast
qed

text \<open>
  C3 (failing input). A user who connects to room "den" and then, without a disconnect in
  between, to room "general" has one connection, to "general", but stays in the member
  set of "den"; after the user's disconnect no connection is left at all and "den" still
  lists the user.
\<close>

theorem reconnect_leaves_stale_member:
  "map_option (\<lambda>cm. (map_of (room_members cm) ''den'',
                      map_option ci_room_id (map_of (user_info cm) ''1''),
                      map_of (connections cm) ''1'')) reconnect_elsewhere
     = Some (Some [''1''], Some ''general'', Some 2)
   \<and> map_option (\<lambda>cm. (map_of (room_members cm) ''den'', user_info cm, connections cm))
       reconnect_then_leave
     = Some (Some [''1''], [], [])"
  by code_simp

text \<open>
  C9 (failing input). In the same two states the active-user list of room "den" names
  the user whose connection is to "general", and after the user has left it consists of
  the AI entry alone.
\<close>

theorem active_users_lists_stale_member:
  "map_option (\<lambda>cm. (get_active_users_info cm ''den'',
                      map_option ci_room_id (map_of (user_info cm) ''1''))) reconnect_elsewhere
     = Some ([(''ai_styx'', ''Styx''), (''1'', ''alice'')], Some ''general'')
   \<and> map_option (\<lambda>cm. (get_active_users_info cm ''den'', user_info cm)) reconnect_then_leave
     = Some ([(''ai_styx'', ''Styx'')], [])"
  by code_simp

subsection \<open>AI response handling\<close>

lemma broadcast_to_room_log:
  assumes "broadcast_to_room n dead cm room ev ex = Some cm'"
  shows "\<exists>after. broadcasts cm' = broadcasts cm @ (room, ev) # after
           \<and> (\<forall>b\<in>set after. presence_event (snd b))"
proof -
  let ?Q = "\<lambda>c. \<exists>after. broadcasts c = broadcasts cm @ (room, ev) # after
           \<and> (\<forall>b\<in>set after. presence_event (snd b))"
  have left: "?Q (log_broadcast (discard_member (pop_user c v) (ci_room_id info) v)
                 (ci_room_id info) (USER_LEFT v (ci_username info)))" if "?Q c" for c v info
  proof -
    from that obtain after where a: "broadcasts c = broadcasts cm @ (room, ev) # after"
      "\<forall>b\<in>set after. presence_event (snd b)" by blast
    have "broadcasts (log_broadcast (discard_member (pop_user c v) (ci_room_id info) v)
                 (ci_room_id info) (USER_LEFT v (ci_username info)))
          = broadcasts cm @ (room, ev) # (after @ [(ci_room_id info, USER_LEFT v (ci_username info))])"
      using a(1) by (simp add: log_broadcast_def discard_member_def pop_user_def Let_def
          split: option.splits)
    moreover have "\<forall>b\<in>set (after @ [(ci_room_id info, USER_LEFT v (ci_username info))]).
        presence_event (snd b)"
      using a(2) by (simp add: presence_event_def)
    ultimately show ?thesis by blast
  qed
  have lst: "?Q (log_broadcast c r (USER_LIST_UPDATED l))" if "?Q c" for c r l
  proof -
    from that obtain after where a: "broadcasts c = broadcasts cm @ (room, ev) # after"
      "\<forall>b\<in>set after. presence_event (snd b)" by blast
    have "broadcasts (log_broadcast c r (USER_LIST_UPDATED l))
          = broadcasts cm @ (room, ev) # (after @ [(r, USER_LIST_UPDATED l)])"
      using a(1) by (simp add: log_broadcast_def)
    moreover have "\<forall>b\<in>set (after @ [(r, USER_LIST_UPDATED l)]). presence_event (snd b)"
      using a(2) by (simp add: presence_event_def)
    ultimately show ?thesis by blast
  qed
  have snt: "?Q (log_sent c v e)" if "?Q c" for c v e
    using that by (simp add: log_sent_def)
  have start: "?Q (log_broadcast cm room ev)"
    by (simp add: log_broadcast_def)
  show ?thesis
    by (rule cascade_invariant(4) [where Q = ?Q, OF _ _ _ start assms])
       (simp_all only: left lst snt)
qed

lemma broadcast_to_room_ok:
  assumes "length (user_info cm) < n"
  shows "\<exists>cm' after. broadcast_to_room n dead cm room ev ex = Some cm'
           \<and> length (user_info cm') < n
           \<and> broadcasts cm' = broadcasts cm @ (room, ev) # after
           \<and> (\<forall>b\<in>set after. presence_event (snd b))"
proof -
  from fuel_enough(4) [OF assms] obtain cm' where
    b: "broadcast_to_room n dead cm room ev ex = Some cm'" by blast
  from user_info_shrinks(4) [OF b] assms have "length (user_info cm') < n" by simp
  with b broadcast_to_room_log [OF b] show ?thesis by blast
qed

lemma message_of_presence:
  "\<forall>b\<in>set bs. presence_event (snd b) \<Longrightarrow> concat (map message_of bs) = []"
  by (induction bs) (auto simp: presence_event_def message_of_def split: ws_event.splits)

lemma message_broadcasts_append:
  assumes "broadcasts cm' = broadcasts cm @ (room, ev) # after"
      and "\<forall>b\<in>set after. presence_event (snd b)"
  shows "message_broadcasts cm' = message_broadcasts cm @ message_of (room, ev)"
  unfolding message_broadcasts_def assms(1)
  by (simp add: message_of_presence [OF assms(2)] del: concat_eq_Nil_conv)

lemma message_of_simps [simp]:
  "message_of (room, AI_TYPING t) = []"
  "message_of (room, MESSAGE_RECEIVED m) = [(room, m)]"
  by (simp_all add: message_of_def)

lemma generate_response_failed:
  "generation_failed (post \<lparr>req_message = um, req_username = un, req_history = h,
                            req_prompt = p, req_model = m\<rparr>) \<Longrightarrow>
   \<exists>a\<in>set apologies. generate_response post um un h p m = Some a \<and> a \<noteq> []"
  by (auto simp: generation_failed_def generate_response_def apologies_def
      split: ai_outcome.splits option.splits)

lemma generate_response_truthy:
  "truthy (generate_response post um un h p m)
     \<longleftrightarrow> \<not> generation_blank (post \<lparr>req_message = um, req_username = un, req_history = h,
                                    req_prompt = p, req_model = m\<rparr>)"
  by (auto simp: truthy_def generation_blank_def generate_response_def
      split: ai_outcome.splits option.splits)

lemma ai_request_eta:
  "\<lparr>req_message = req_message r, req_username = req_username r, req_history = req_history r,
    req_prompt = req_prompt r, req_model = req_model r\<rparr> = (r :: ai_request)"
  by (cases r) simp

lemma handler_response_failed:
  "generation_failed (ai_post env (handler_request env store room um un)) \<Longrightarrow>
   \<exists>a\<in>set apologies. handler_response env store room um un = Some a \<and> a \<noteq> []"
  unfolding handler_response_def Let_def
  by (rule generate_response_failed) (simp only: ai_request_eta)

lemma handler_response_truthy:
  "truthy (handler_response env store room um un)
     \<longleftrightarrow> \<not> generation_blank (ai_post env (handler_request env store room um un))"
  unfolding handler_response_def Let_def
  by (simp only: generate_response_truthy ai_request_eta)

text \<open>The three shapes a run of the handler can take.\<close>

lemma handle_ai_response_cases:
  assumes n: "length (user_info cm) < n"
  shows "\<exists>cm' store' mid after. handle_ai_response n env cm store room um un = Some (cm', store')
      \<and> broadcasts cm' = broadcasts cm @ (room, AI_TYPING True) # mid
                             @ (room, AI_TYPING False) # after
      \<and> (\<forall>b\<in>set after. presence_event (snd b))
      \<and> ((\<exists>r. truthy (Some r) \<and> up_rooms env
               \<and> handler_response env store room um un = Some r
               \<and> message_broadcasts cm' = message_broadcasts cm @ [(room, ai_message env room r)]
               \<and> store' = snd (store_message (up_store env) (max_chat_history env) store
                                 (ai_message env room r)))
         \<or> ((\<not> up_rooms env \<or> \<not> truthy (handler_response env store room um un))
               \<and> message_broadcasts cm' = message_broadcasts cm \<and> store' = store))"
proof -
  from broadcast_to_room_ok [OF n] obtain cm1 a1 where
    b1: "broadcast_to_room n (socket_dead env) cm room (AI_TYPING True) None = Some cm1"
    and n1: "length (user_info cm1) < n"
    and l1: "broadcasts cm1 = broadcasts cm @ (room, AI_TYPING True) # a1"
    and p1: "\<forall>b\<in>set a1. presence_event (snd b)" by blast
  have m1: "message_broadcasts cm1 = message_broadcasts cm"
    using message_broadcasts_append [OF l1 p1] by simp
  define found where "found = get_room (up_rooms env) store room"
  show ?thesis
  proof (cases "up_rooms env")
    case False
    from broadcast_to_room_ok [OF n1] obtain cm2 a2 where
      b2: "broadcast_to_room n (socket_dead env) cm1 room (AI_TYPING False) None = Some cm2"
      and l2: "broadcasts cm2 = broadcasts cm1 @ (room, AI_TYPING False) # a2"
      and p2: "\<forall>b\<in>set a2. presence_event (snd b)" by blast
    have m2: "message_broadcasts cm2 = message_broadcasts cm"
      using message_broadcasts_append [OF l2 p2] m1 by simp
    from False b1 b2 have "handle_ai_response n env cm store room um un = Some (cm2, store)"
      by (simp add: handle_ai_response_def get_room_def)
    moreover from l1 l2 have "broadcasts cm2 = broadcasts cm @ (room, AI_TYPING True) # a1
                             @ (room, AI_TYPING False) # a2" by simp
    ultimately show ?thesis using p2 m2 False by blast
  next
    case True
    define fnd where "fnd = room_hashes store room"
    define room_prompt where
      "room_prompt = (case fnd of None \<Rightarrow> None | Some r \<Rightarrow> ai_system_prompt r)"
    define room_model where "room_model = (case fnd of None \<Rightarrow> None | Some r \<Rightarrow> ai_model r)"
    define recent where "recent = get_recent_messages (up_history env) store room 10"
    define chat_history where "chat_history =
        (if recent \<noteq> [] \<and> content (last recent) = um \<and> sender_name (last recent) = un
         then butlast recent else recent)"
    define resp where "resp = generate_response (ai_post env) um un chat_history room_prompt room_model"
    have hr: "handler_response env store room um un = resp"
      by (simp add: handler_response_def handler_request_def Let_def resp_def chat_history_def
          recent_def room_model_def room_prompt_def fnd_def)
    have unfold: "handle_ai_response n env cm store room um un =
        (if truthy resp then
           (case broadcast_to_room n (socket_dead env) cm1 room
                   (MESSAGE_RECEIVED (ai_message env room (the resp))) None of
              None \<Rightarrow> None
            | Some cm2 \<Rightarrow>
                map_option (\<lambda>cm'. (cm', snd (store_message (up_store env) (max_chat_history env)
                                               store (ai_message env room (the resp)))))
                  (broadcast_to_room n (socket_dead env) cm2 room (AI_TYPING False) None))
         else map_option (\<lambda>cm'. (cm', store))
                (broadcast_to_room n (socket_dead env) cm1 room (AI_TYPING False) None))"
      unfolding handle_ai_response_def resp_def chat_history_def recent_def room_model_def
        room_prompt_def fnd_def
      using b1 True by (simp add: get_room_def Let_def split del: if_split cong: if_cong)
    show ?thesis
    proof (cases "truthy resp")
      case False
      from broadcast_to_room_ok [OF n1] obtain cm2 a2 where
        b2: "broadcast_to_room n (socket_dead env) cm1 room (AI_TYPING False) None = Some cm2"
        and l2: "broadcasts cm2 = broadcasts cm1 @ (room, AI_TYPING False) # a2"
        and p2: "\<forall>b\<in>set a2. presence_event (snd b)" by blast
      have m2: "message_broadcasts cm2 = message_broadcasts cm"
        using message_broadcasts_append [OF l2 p2] m1 by simp
      from False b2 have "handle_ai_response n env cm store room um un = Some (cm2, store)"
        by (simp add: unfold)
      moreover from l1 l2 have "broadcasts cm2 = broadcasts cm @ (room, AI_TYPING True) # a1
                             @ (room, AI_TYPING False) # a2" by simp
      moreover from False have "\<not> truthy (handler_response env store room um un)"
        by (simp add: hr)
      ultimately show ?thesis using p2 m2 by blast
    next
      case t: True
      then obtain r where r: "resp = Some r" by (auto simp: truthy_def split: option.splits)
      define message where "message = ai_message env room r"
      define store' where
        "store' = snd (store_message (up_store env) (max_chat_history env) store message)"
      from broadcast_to_room_ok [OF n1] obtain cm2 a2 where
        b2: "broadcast_to_room n (socket_dead env) cm1 room (MESSAGE_RECEIVED message) None = Some cm2"
        and n2: "length (user_info cm2) < n"
        and l2: "broadcasts cm2 = broadcasts cm1 @ (room, MESSAGE_RECEIVED message) # a2"
        and p2: "\<forall>b\<in>set a2. presence_event (snd b)" by blast
      from broadcast_to_room_ok [OF n2] obtain cm3 a3 where
        b3: "broadcast_to_room n (socket_dead env) cm2 room (AI_TYPING False) None = Some cm3"
        and l3: "broadcasts cm3 = broadcasts cm2 @ (room, AI_TYPING False) # a3"
        and p3: "\<forall>b\<in>set a3. presence_event (snd b)" by blast
      have m3: "message_broadcasts cm3 = message_broadcasts cm @ [(room, message)]"
        using message_broadcasts_append [OF l3 p3] message_broadcasts_append [OF l2 p2] m1
        by simp
      from t r b2 b3
      have "handle_ai_response n env cm store room um un = Some (cm3, store')"
        by (simp add: unfold message_def store'_def)
      moreover from l1 l2 l3 have "broadcasts cm3 = broadcasts cm @ (room, AI_TYPING True)
           # (a1 @ (room, MESSAGE_RECEIVED message) # a2) @ (room, AI_TYPING False) # a3"
        by simp
      moreover from r have "handler_response env store room um un = Some r"
        by (simp add: hr)
      ultimately show ?thesis using p3 m3 t r True unfolding message_def store'_def by blast
    qed
  qed
qed

text \<open>
  C7. Whatever the collaborators do, \<open>handle_ai_response\<close> returns, and the broadcasts
  it adds are "AI typing = true", then whatever the attempt produced, then
  "AI typing = false" for the same room, followed by nothing but the presence events of
  recipients that were dropped during that last broadcast. This covers a reply, a blank
  reply, a failed generation, and the room lookup raising.
\<close>

theorem ai_typing_always_cleared:
  assumes "length (user_info cm) < n"
  shows "\<exists>cm' store' mid after.
           handle_ai_response n env cm store room user_message username = Some (cm', store')
           \<and> broadcasts cm' = broadcasts cm @ (room, AI_TYPING True) # mid
                                  @ (room, AI_TYPING False) # after
           \<and> (\<forall>b\<in>set after. presence_event (snd b))"
  using handle_ai_response_cases [OF assms, of env store room user_message username]
  by blast

theorem ai_typing_always_cleared_witness:
  "length (user_info alice_in_general) < 2
   \<and> (\<exists>cm' store' mid after.
         handle_ai_response 2 outage_env alice_in_general empty_store ''general'' ''@ai hi''
           ''alice'' = Some (cm', store')
         \<and> broadcasts cm' = broadcasts alice_in_general @ (''general'', AI_TYPING True) # mid
                                @ (''general'', AI_TYPING False) # after)"
proof -
  have h: "length (user_info alice_in_general) < 2"
    by (simp add: alice_in_general_def)
  from ai_typing_always_cleared
         [OF h, of outage_env empty_store "''general''" "''@ai hi''" "''alice''"] h
  show ?thesis by blast
qed

text \<open>
  C4 (counterexample). The collaborator times out; the handler broadcasts an ai-type
  message to the room and files it in the room's history.
\<close>

theorem generation_timeout_emits_ai_message:
  "ai_contents_broadcast timeout_run
     = Some [''Sorry, I'm taking too long to respond. Please try again.'']
   \<and> ai_contents_stored timeout_run ''general''
     = Some [''Sorry, I'm taking too long to respond. Please try again.'']"
  by code_simp

text \<open>
  C4 (amended). Whenever the room lookup returns and the collaborator fails or times out
  on the request the handler makes, \<open>generate_response\<close> answers with one of its three
  fixed apologies, and the handler stores and broadcasts that text as a message of type
  \<open>ai\<close> from Styx. No message is stored or broadcast when the room lookup raises or the
  reply to that request is blank (status 200 with nothing but whitespace), and only then:
  in every other case a message is broadcast.
\<close>

theorem generation_failure_emits_apology:
  assumes "length (user_info cm) < n"
  shows "\<exists>cm' store'.
           handle_ai_response n env cm store room user_message username = Some (cm', store')
           \<and> (up_rooms env
               \<and> generation_failed
                    (ai_post env (handler_request env store room user_message username)) \<longrightarrow>
                (\<exists>a\<in>set apologies.
                   message_type (ai_message env room a) = AI
                   \<and> message_broadcasts cm'
                       = message_broadcasts cm @ [(room, ai_message env room a)]
                   \<and> store' = snd (store_message (up_store env) (max_chat_history env) store
                                     (ai_message env room a))))
           \<and> (\<not> up_rooms env
               \<or> generation_blank
                    (ai_post env (handler_request env store room user_message username)) \<longrightarrow>
                message_broadcasts cm' = message_broadcasts cm \<and> store' = store)
           \<and> (up_rooms env
               \<and> \<not> generation_blank
                    (ai_post env (handler_request env store room user_message username)) \<longrightarrow>
                message_broadcasts cm' \<noteq> message_broadcasts cm)"
proof -
  let ?req = "handler_request env store room user_message username"
  let ?resp = "handler_response env store room user_message username"
  from handle_ai_response_cases [OF assms, of env store room user_message username]
  obtain cm' store' where
    run: "handle_ai_response n env cm store room user_message username = Some (cm', store')"
    and alt: "(\<exists>r. truthy (Some r) \<and> up_rooms env \<and> ?resp = Some r
               \<and> message_broadcasts cm' = message_broadcasts cm @ [(room, ai_message env room r)]
               \<and> store' = snd (store_message (up_store env) (max_chat_history env) store
                                 (ai_message env room r)))
         \<or> ((\<not> up_rooms env \<or> \<not> truthy ?resp)
               \<and> message_broadcasts cm' = message_broadcasts cm \<and> store' = store)"
    by blast
  have ty: "message_type (ai_message env room a) = AI" for a
    by (simp add: ai_message_def)
  from alt show ?thesis
  proof
    assume "\<exists>r. truthy (Some r) \<and> up_rooms env \<and> ?resp = Some r
               \<and> message_broadcasts cm' = message_broadcasts cm @ [(room, ai_message env room r)]
               \<and> store' = snd (store_message (up_store env) (max_chat_history env) store
                                 (ai_message env room r))"
    then obtain r where r: "truthy (Some r)" "up_rooms env" "?resp = Some r"
      "message_broadcasts cm' = message_broadcasts cm @ [(room, ai_message env room r)]"
      "store' = snd (store_message (up_store env) (max_chat_history env) store
                                 (ai_message env room r))"
      by blast
    have one: "generation_failed (ai_post env ?req) \<longrightarrow> r \<in> set apologies"
      using handler_response_failed [of env store room user_message username] r(3) by auto
    from r(1,3) have two: "\<not> generation_blank (ai_post env ?req)"
      using handler_response_truthy [of env store room user_message username] by simp
    from r(4) have three: "message_broadcasts cm' \<noteq> message_broadcasts cm" by simp
    from run r one two three ty show ?thesis by blast
  next
    assume n: "(\<not> up_rooms env \<or> \<not> truthy ?resp)
               \<and> message_broadcasts cm' = message_broadcasts cm \<and> store' = store"
    then have blank: "\<not> up_rooms env \<or> generation_blank (ai_post env ?req)"
      using handler_response_truthy [of env store room user_message username] by blast
    have "\<not> (up_rooms env \<and> generation_failed (ai_post env ?req))"
    proof
      assume f: "up_rooms env \<and> generation_failed (ai_post env ?req)"
      with handler_response_failed [of env store room user_message username]
      have "truthy ?resp" by (auto simp: truthy_def)
      with n f show False by blast
    qed
    with run n blank show ?thesis by blast
  qed
qed

theorem generation_failure_emits_apology_witness:
  "length (user_info alice_in_general) < 2 \<and> up_rooms picky_env
   \<and> ai_post picky_env (handler_request picky_env empty_store ''general'' ''@ai hi'' ''alice'')
       = TimeoutException
   \<and> (\<exists>cm' store' a.
         handle_ai_response 2 picky_env alice_in_general empty_store ''general'' ''@ai hi''
           ''alice'' = Some (cm', store')
         \<and> a \<in> set apologies
         \<and> message_broadcasts cm'
             = message_broadcasts alice_in_general @ [(''general'', ai_message picky_env ''general'' a)])"
proof -
  have h: "length (user_info alice_in_general) < 2"
    by (simp add: alice_in_general_def)
  have u: "up_rooms picky_env"
    by (simp add: picky_env_def timeout_env_def)
  have t: "ai_post picky_env (handler_request picky_env empty_store ''general'' ''@ai hi'' ''alice'')
             = TimeoutException"
    by (simp add: picky_env_def timeout_env_def handler_request_def Let_def)
  then have f: "generation_failed
      (ai_post picky_env (handler_request picky_env empty_store ''general'' ''@ai hi'' ''alice''))"
    by (simp add: generation_failed_def)
  from generation_failure_emits_apology
         [OF h, of picky_env empty_store "''general''" "''@ai hi''" "''alice''"] h u t f
  show ?thesis by blast
qed

subsection \<open>Clearing a room's messages\<close>

text \<open>
  C10. A request of an admin to clear the messages of a room that exists always fails
  with the internal error (status 500): the method the endpoint calls does not exist, the
  attribute error is caught by the endpoint's handler, and the store is left as it was.
\<close>

theorem clear_room_messages_always_fails:
  assumes "role = ''admin''"
      and "get_room up store rid = Inr (Some room)"
  shows "clear_room_messages up store role rid
         = (Inl (HTTPException 500 ''Failed to clear room messages''), store)"
  using assms
  by (simp add: clear_room_messages_def ChatManager_clear_room_messages_def)

theorem clear_room_messages_always_fails_witness:
  "get_room True (empty_store\<lparr>room_hashes := [''general'' \<mapsto> general_room]\<rparr>) ''general''
     = Inr (Some general_room)
   \<and> clear_room_messages True (empty_store\<lparr>room_hashes := [''general'' \<mapsto> general_room]\<rparr>)
       ''admin'' ''general''
     = (Inl (HTTPException 500 ''Failed to clear room messages''),
        empty_store\<lparr>room_hashes := [''general'' \<mapsto> general_room]\<rparr>)"
proof -
  have h: "get_room True (empty_store\<lparr>room_hashes := [''general'' \<mapsto> general_room]\<rparr>) ''general''
             = Inr (Some general_room)"
    by (simp add: get_room_def empty_store_def)
  show ?thesis
    using h clear_room_messages_always_fails [OF refl h] by simp
qed

end
